theory Spec2Isabelle
  imports Main "HOL-Library.Word" "HOL-Library.AList"
begin

unbundle bit_operations_syntax

section \<open>The MD5 digest of hashlib\<close>

text \<open>
  \<^verbatim>\<open>hash_file\<close> returns \<^verbatim>\<open>hashlib.md5(f.read()).hexdigest()\<close>. The digest is the
  one of RFC 1321: the message is padded to a multiple of 64 bytes, each block runs
  through four rounds of sixteen operations, and the four state words are printed in
  little-endian order as lower-case hexadecimal digits. A round table lists, for each
  operation, the index of the message word, the rotation and the additive constant.
\<close>

type_synonym md5_state = "32 word \<times> 32 word \<times> 32 word \<times> 32 word"

definition rotl32 :: "32 word \<Rightarrow> nat \<Rightarrow> 32 word" where
  "rotl32 x n = push_bit n x OR drop_bit (32 - n) x"

definition md5_F :: "32 word \<Rightarrow> 32 word \<Rightarrow> 32 word \<Rightarrow> 32 word" where
  "md5_F x y z = (x AND y) OR (NOT x AND z)"

definition md5_G :: "32 word \<Rightarrow> 32 word \<Rightarrow> 32 word \<Rightarrow> 32 word" where
  "md5_G x y z = (x AND z) OR (y AND NOT z)"

definition md5_H :: "32 word \<Rightarrow> 32 word \<Rightarrow> 32 word \<Rightarrow> 32 word" where
  "md5_H x y z = x XOR y XOR z"

definition md5_I :: "32 word \<Rightarrow> 32 word \<Rightarrow> 32 word \<Rightarrow> 32 word" where
  "md5_I x y z = y XOR (x OR NOT z)"

definition md5_round1 :: "(nat \<times> nat \<times> 32 word) list" where
  "md5_round1 =
    [(0, 7, 0xd76aa478), (1, 12, 0xe8c7b756), (2, 17, 0x242070db), (3, 22, 0xc1bdceee),
     (4, 7, 0xf57c0faf), (5, 12, 0x4787c62a), (6, 17, 0xa8304613), (7, 22, 0xfd469501),
     (8, 7, 0x698098d8), (9, 12, 0x8b44f7af), (10, 17, 0xffff5bb1), (11, 22, 0x895cd7be),
     (12, 7, 0x6b901122), (13, 12, 0xfd987193), (14, 17, 0xa679438e), (15, 22, 0x49b40821)]"

definition md5_round2 :: "(nat \<times> nat \<times> 32 word) list" where
  "md5_round2 =
    [(1, 5, 0xf61e2562), (6, 9, 0xc040b340), (11, 14, 0x265e5a51), (0, 20, 0xe9b6c7aa),
     (5, 5, 0xd62f105d), (10, 9, 0x02441453), (15, 14, 0xd8a1e681), (4, 20, 0xe7d3fbc8),
     (9, 5, 0x21e1cde6), (14, 9, 0xc33707d6), (3, 14, 0xf4d50d87), (8, 20, 0x455a14ed),
     (13, 5, 0xa9e3e905), (2, 9, 0xfcefa3f8), (7, 14, 0x676f02d9), (12, 20, 0x8d2a4c8a)]"

definition md5_round3 :: "(nat \<times> nat \<times> 32 word) list" where
  "md5_round3 =
    [(5, 4, 0xfffa3942), (8, 11, 0x8771f681), (11, 16, 0x6d9d6122), (14, 23, 0xfde5380c),
     (1, 4, 0xa4beea44), (4, 11, 0x4bdecfa9), (7, 16, 0xf6bb4b60), (10, 23, 0xbebfbc70),
     (13, 4, 0x289b7ec6), (0, 11, 0xeaa127fa), (3, 16, 0xd4ef3085), (6, 23, 0x04881d05),
     (9, 4, 0xd9d4d039), (12, 11, 0xe6db99e5), (15, 16, 0x1fa27cf8), (2, 23, 0xc4ac5665)]"

definition md5_round4 :: "(nat \<times> nat \<times> 32 word) list" where
  "md5_round4 =
    [(0, 6, 0xf4292244), (7, 10, 0x432aff97), (14, 15, 0xab9423a7), (5, 21, 0xfc93a039),
     (12, 6, 0x655b59c3), (3, 10, 0x8f0ccc92), (10, 15, 0xffeff47d), (1, 21, 0x85845dd1),
     (8, 6, 0x6fa87e4f), (15, 10, 0xfe2ce6e0), (6, 15, 0xa3014314), (13, 21, 0x4e0811a1),
     (4, 6, 0xf7537e82), (11, 10, 0xbd3af235), (2, 15, 0x2ad7d2bb), (9, 21, 0xeb86d391)]"

fun md5_op :: "(32 word \<Rightarrow> 32 word \<Rightarrow> 32 word \<Rightarrow> 32 word) \<Rightarrow> 32 word list
    \<Rightarrow> nat \<times> nat \<times> 32 word \<Rightarrow> md5_state \<Rightarrow> md5_state" where
  "md5_op f X (k, s, t) (a, b, c, d) = (d, b + rotl32 (a + f b c d + X ! k + t) s, b, c)"

fun le_word :: "nat list \<Rightarrow> 32 word" where
  "le_word [] = 0"
| "le_word (b # bs) = of_nat b + push_bit 8 (le_word bs)"

fun le_words :: "nat \<Rightarrow> nat list \<Rightarrow> 32 word list" where
  "le_words 0 bs = []"
| "le_words (Suc n) bs = le_word (take 4 bs) # le_words n (drop 4 bs)"

definition md5_rounds :: "32 word list \<Rightarrow> md5_state \<Rightarrow> md5_state" where
  "md5_rounds X st =
     fold (md5_op md5_I X) md5_round4
       (fold (md5_op md5_H X) md5_round3
         (fold (md5_op md5_G X) md5_round2
           (fold (md5_op md5_F X) md5_round1 st)))"

fun md5_add :: "md5_state \<Rightarrow> md5_state \<Rightarrow> md5_state" where
  "md5_add (a0, b0, c0, d0) (a, b, c, d) = (a0 + a, b0 + b, c0 + c, d0 + d)"

definition md5_block :: "md5_state \<Rightarrow> nat list \<Rightarrow> md5_state" where
  "md5_block st blk = md5_add st (md5_rounds (le_words 16 blk) st)"

fun le_bytes :: "nat \<Rightarrow> nat \<Rightarrow> nat list" where
  "le_bytes 0 v = []"
| "le_bytes (Suc n) v = (v mod 256) # le_bytes n (v div 256)"

definition md5_pad :: "nat list \<Rightarrow> nat list" where
  "md5_pad bs = bs @ [128] @ replicate ((119 - length bs mod 64) mod 64) 0
                  @ le_bytes 8 (8 * length bs)"

fun md5_blocks :: "nat \<Rightarrow> md5_state \<Rightarrow> nat list \<Rightarrow> md5_state" where
  "md5_blocks 0 st bs = st"
| "md5_blocks (Suc n) st bs = md5_blocks n (md5_block st (take 64 bs)) (drop 64 bs)"

definition md5_init :: md5_state where
  "md5_init = (0x67452301, 0xefcdab89, 0x98badcfe, 0x10325476)"

definition md5 :: "string \<Rightarrow> md5_state" where
  "md5 s = (let bs = md5_pad (map of_char s) in md5_blocks (length bs div 64) md5_init bs)"

definition hex_digit :: "32 word \<Rightarrow> char" where
  "hex_digit w = ''0123456789abcdef'' ! unat w"

definition hex_byte :: "32 word \<Rightarrow> string" where
  "hex_byte w = [hex_digit (drop_bit 4 w AND 15), hex_digit (w AND 15)]"

definition hex_word :: "32 word \<Rightarrow> string" where
  "hex_word w = hex_byte (w AND 255) @ hex_byte (drop_bit 8 w AND 255)
     @ hex_byte (drop_bit 16 w AND 255) @ hex_byte (drop_bit 24 w AND 255)"

definition hexdigest :: "md5_state \<Rightarrow> string" where
  "hexdigest st = (case st of (a, b, c, d) \<Rightarrow> hex_word a @ hex_word b @ hex_word c @ hex_word d)"

section \<open>The file system, the clock and the standard output\<close>

text \<open>
  A directory is named by its path and holds entries by name; \<^verbatim>\<open>os.path.join(src, file)\<close>
  is the pair of the directory and the name. A directory has one path: two paths name the
  same directory exactly when they are equal as strings. The entries of a directory are kept in the
  order in which \<^verbatim>\<open>os.listdir\<close> returns them. A regular file carries its bytes (a
  \<open>char\<close> is one byte), its permission bits and its modification time. The log file is a
  file of the same file system, so it may lie inside the source or the destination.
  A call fails for what the directories hold (a missing directory or file, a directory
  where a file is expected); a text that cannot be encoded and a file that may not be
  opened are left out.

  The clock is read through \<open>tick\<close>: the \<open>k\<close>-th reading formats as \<open>strftime_at k fmt\<close>
  and is the time stamp \<open>time_at k\<close> of a file written then. The field \<open>trace\<close> is a
  history of the calls made so far, in order (a message printed, a message logged, a
  directory listed, a copy and a removal attempted); no function reads it.
\<close>

type_synonym path = string
type_synonym name = string

datatype entry = File (content: string) (mode: nat) (mtime: nat) | Subdir

datatype error =
    DirectoryAccessError path
  | FileNotFoundError path name
  | IsADirectoryError path name
  | SameFileError path name

datatype event =
    is_Print: Print string
  | is_Log: Log string
  | is_Listdir: Listdir path
  | is_Copy: Copy path name path
  | is_Remove: Remove path name

record world =
  dirs :: "path \<Rightarrow> (name \<times> entry) list option"
  stdout :: "string list"
  tick :: nat
  strftime_at :: "nat \<Rightarrow> string \<Rightarrow> string"
  time_at :: "nat \<Rightarrow> nat"
  create_mode :: nat
  trace :: "event list"

datatype 'a result = Return 'a world | Raise error world

fun bind :: "'a result \<Rightarrow> ('a \<Rightarrow> world \<Rightarrow> 'b result) \<Rightarrow> 'b result" where
  "bind (Return x w) f = f x w"
| "bind (Raise e w) f = Raise e w"

fun world_of :: "'a result \<Rightarrow> world" where
  "world_of (Return x w) = w"
| "world_of (Raise e w) = w"

fun returns :: "'a result \<Rightarrow> bool" where
  "returns (Return x w) = True"
| "returns (Raise e w) = False"

definition lookup :: "world \<Rightarrow> path \<Rightarrow> name \<Rightarrow> entry option" where
  "lookup w d n = (case dirs w d of None \<Rightarrow> None | Some es \<Rightarrow> map_of es n)"

definition names :: "world \<Rightarrow> path \<Rightarrow> name set" where
  "names w d = (case dirs w d of None \<Rightarrow> {} | Some es \<Rightarrow> set (map fst es))"

definition store :: "path \<Rightarrow> name \<Rightarrow> entry \<Rightarrow> world \<Rightarrow> world" where
  "store d n e w =
     (case dirs w d of
        None \<Rightarrow> w
      | Some es \<Rightarrow> w\<lparr>dirs := (dirs w)(d \<mapsto> AList.update n e es)\<rparr>)"

definition unlink :: "path \<Rightarrow> name \<Rightarrow> world \<Rightarrow> world" where
  "unlink d n w =
     (case dirs w d of
        None \<Rightarrow> w
      | Some es \<Rightarrow> w\<lparr>dirs := (dirs w)(d \<mapsto> AList.delete n es)\<rparr>)"

definition emit :: "event \<Rightarrow> world \<Rightarrow> world" where
  "emit ev w = w\<lparr>trace := trace w @ [ev]\<rparr>"

definition tock :: "world \<Rightarrow> world" where
  "tock w = w\<lparr>tick := Suc (tick w)\<rparr>"

text \<open>A directory never lists a name twice.\<close>

definition well_formed :: "world \<Rightarrow> bool" where
  "well_formed w = (\<forall>d es. dirs w d = Some es \<longrightarrow> distinct (map fst es))"

subsection \<open>The library calls\<close>

text \<open>\<^verbatim>\<open>print(s)\<close>.\<close>

definition print :: "string \<Rightarrow> world \<Rightarrow> unit result" where
  "print s w = Return () (emit (Print s) (w\<lparr>stdout := stdout w @ [s]\<rparr>))"

text \<open>
  \<^verbatim>\<open>os.listdir(p)\<close>: the names of the entries of \<open>p\<close>; it raises when \<open>p\<close> is missing
  or cannot be read.
\<close>

definition os_listdir :: "path \<Rightarrow> world \<Rightarrow> name list result" where
  "os_listdir p w =
     (case dirs w p of
        None \<Rightarrow> Raise (DirectoryAccessError p) (emit (Listdir p) w)
      | Some es \<Rightarrow> Return (map fst es) (emit (Listdir p) w))"

text \<open>
  \<^verbatim>\<open>shutil.copy(os.path.join(sd, n), dd)\<close>, with \<open>dd\<close> a directory: the target is
  \<open>dd/n\<close>. It refuses to copy a file onto itself, reads the source, truncates or
  creates the target, writes the bytes and copies the permission bits; the target's
  modification time is the time of the copy. When \<open>dd\<close> is no directory the library
  writes a file at the path \<open>dd\<close> itself; \<open>sync\<close> lists \<open>dd\<close> first and removes no
  directory, so it never gets there, and the model raises.
\<close>

definition shutil_copy :: "path \<Rightarrow> name \<Rightarrow> path \<Rightarrow> world \<Rightarrow> unit result" where
  "shutil_copy sd n dd w =
     (let w1 = emit (Copy sd n dd) w in
      if dirs w dd = None then Raise (FileNotFoundError dd n) w1
      else
        (case lookup w sd n of
           None \<Rightarrow> Raise (FileNotFoundError sd n) w1
         | Some Subdir \<Rightarrow>
             if sd = dd then Raise (SameFileError sd n) w1
             else Raise (IsADirectoryError sd n) w1
         | Some (File c m t) \<Rightarrow>
             if sd = dd then Raise (SameFileError sd n) w1
             else if lookup w dd n = Some Subdir then Raise (IsADirectoryError dd n) w1
             else Return () (tock (store dd n (File c m (time_at w (tick w))) w1))))"

text \<open>\<^verbatim>\<open>os.remove(os.path.join(d, n))\<close>: removes a regular file.\<close>

definition os_remove :: "path \<Rightarrow> name \<Rightarrow> world \<Rightarrow> unit result" where
  "os_remove d n w =
     (let w1 = emit (Remove d n) w in
      case lookup w d n of
        None \<Rightarrow> Raise (FileNotFoundError d n) w1
      | Some Subdir \<Rightarrow> Raise (IsADirectoryError d n) w1
      | Some (File c m t) \<Rightarrow> Return () (unlink d n w1))"

section \<open>The program\<close>

subsection \<open>Logger\<close>

record Logger =
  log_file_path :: "path \<times> name"
  lsrc :: path
  ldst :: path

text \<open>
  \<^verbatim>\<open>Logger.log\<close>: opens the log file for appending, which creates it when it is absent,
  and writes the time stamp, a colon, the message and a newline.
\<close>

definition log_line :: "world \<Rightarrow> string \<Rightarrow> string" where
  "log_line w message =
     strftime_at w (tick w) ''%Y-%m-%d %H:%M:%S'' @ '': '' @ message @ [CHR 0x0A]"

definition Logger_log :: "Logger \<Rightarrow> string \<Rightarrow> world \<Rightarrow> unit result" where
  "Logger_log logger message w =
     (case log_file_path logger of
        (d, n) \<Rightarrow>
          (case dirs w d of
             None \<Rightarrow> Raise (FileNotFoundError d n) w
           | Some es \<Rightarrow>
               (case map_of es n of
                  Some Subdir \<Rightarrow> Raise (IsADirectoryError d n) w
                | Some (File c m t) \<Rightarrow>
                    Return () (tock (store d n (File (c @ log_line w message) m (time_at w (tick w)))
                      (emit (Log message) w)))
                | None \<Rightarrow>
                    Return () (tock (store d n (File (log_line w message) (create_mode w) (time_at w (tick w)))
                      (emit (Log message) w))))))"

definition start_message :: "path \<Rightarrow> path \<Rightarrow> string" where
  "start_message src dst = ''Syncing files from '' @ src @ '' to '' @ dst"

definition end_message :: "path \<Rightarrow> path \<Rightarrow> string" where
  "end_message src dst = ''Sync completed from '' @ src @ '' to '' @ dst"

definition copy_message :: "name \<Rightarrow> path \<Rightarrow> path \<Rightarrow> string" where
  "copy_message file src dst = ''Copying '' @ file @ '' from '' @ src @ '' to '' @ dst"

definition remove_message :: "name \<Rightarrow> path \<Rightarrow> string" where
  "remove_message file dst = ''Removing '' @ file @ '' from '' @ dst"

definition log_sync_start :: "Logger \<Rightarrow> world \<Rightarrow> unit result" where
  "log_sync_start logger = Logger_log logger (start_message (lsrc logger) (ldst logger))"

definition log_sync_end :: "Logger \<Rightarrow> world \<Rightarrow> unit result" where
  "log_sync_end logger = Logger_log logger (end_message (lsrc logger) (ldst logger))"

definition log_copy :: "Logger \<Rightarrow> name \<Rightarrow> world \<Rightarrow> unit result" where
  "log_copy logger file = Logger_log logger (copy_message file (lsrc logger) (ldst logger))"

definition log_remove :: "Logger \<Rightarrow> name \<Rightarrow> world \<Rightarrow> unit result" where
  "log_remove logger file = Logger_log logger (remove_message file (ldst logger))"

subsection \<open>hash_file\<close>

definition hash_file :: "path \<Rightarrow> name \<Rightarrow> world \<Rightarrow> string result" where
  "hash_file d n w =
     (case lookup w d n of
        None \<Rightarrow> Raise (FileNotFoundError d n) w
      | Some Subdir \<Rightarrow> Raise (IsADirectoryError d n) w
      | Some (File c m t) \<Rightarrow> Return (hexdigest (md5 c)) w)"

subsection \<open>sync\<close>

text \<open>\<^verbatim>\<open>if args.verbose: print(s)\<close>.\<close>

definition say :: "bool \<Rightarrow> string \<Rightarrow> world \<Rightarrow> unit result" where
  "say verbose s w = (if verbose then print s w else Return () w)"

text \<open>The three lines that print, log and copy one file.\<close>

definition do_copy :: "bool \<Rightarrow> path \<Rightarrow> path \<Rightarrow> Logger \<Rightarrow> name \<Rightarrow> world \<Rightarrow> unit result" where
  "do_copy verbose src dst logger file w =
     bind (say verbose (copy_message file src dst) w) (\<lambda>_ w.
     bind (log_copy logger file w) (\<lambda>_ w.
     shutil_copy src file dst w))"

text \<open>The body of the first loop, for one name of the source listing.\<close>

definition copy_step :: "bool \<Rightarrow> path \<Rightarrow> path \<Rightarrow> Logger \<Rightarrow> name list \<Rightarrow> name \<Rightarrow> world \<Rightarrow> unit result" where
  "copy_step verbose src dst logger dst_files file w =
     (if file \<notin> set dst_files then do_copy verbose src dst logger file w
      else
        bind (hash_file src file w) (\<lambda>src_hash w.
        bind (hash_file dst file w) (\<lambda>dst_hash w.
        if src_hash \<noteq> dst_hash then do_copy verbose src dst logger file w
        else Return () w)))"

fun copy_loop :: "bool \<Rightarrow> path \<Rightarrow> path \<Rightarrow> Logger \<Rightarrow> name list \<Rightarrow> name list \<Rightarrow> world \<Rightarrow> unit result" where
  "copy_loop verbose src dst logger dst_files [] w = Return () w"
| "copy_loop verbose src dst logger dst_files (file # files) w =
     bind (copy_step verbose src dst logger dst_files file w) (\<lambda>_ w.
     copy_loop verbose src dst logger dst_files files w)"

text \<open>The body of the second loop, for one name of the destination listing.\<close>

definition remove_step :: "bool \<Rightarrow> path \<Rightarrow> Logger \<Rightarrow> name list \<Rightarrow> name \<Rightarrow> world \<Rightarrow> unit result" where
  "remove_step verbose dst logger src_files file w =
     (if file \<notin> set src_files then
        bind (say verbose (remove_message file dst) w) (\<lambda>_ w.
        bind (log_remove logger file w) (\<lambda>_ w.
        os_remove dst file w))
      else Return () w)"

fun remove_loop :: "bool \<Rightarrow> path \<Rightarrow> Logger \<Rightarrow> name list \<Rightarrow> name list \<Rightarrow> world \<Rightarrow> unit result" where
  "remove_loop verbose dst logger src_files [] w = Return () w"
| "remove_loop verbose dst logger src_files (file # files) w =
     bind (remove_step verbose dst logger src_files file w) (\<lambda>_ w.
     remove_loop verbose dst logger src_files files w)"

text \<open>The part of \<^verbatim>\<open>sync\<close> after the two listings.\<close>

definition reconcile :: "bool \<Rightarrow> path \<Rightarrow> path \<Rightarrow> Logger \<Rightarrow> name list \<Rightarrow> name list \<Rightarrow> world \<Rightarrow> unit result" where
  "reconcile verbose src dst logger src_files dst_files w =
     bind (copy_loop verbose src dst logger dst_files src_files w) (\<lambda>_ w.
     bind (remove_loop verbose dst logger src_files dst_files w) (\<lambda>_ w.
     bind (say verbose (end_message src dst) w) (\<lambda>_ w.
     log_sync_end logger w)))"

definition sync :: "bool \<Rightarrow> path \<Rightarrow> path \<Rightarrow> Logger \<Rightarrow> world \<Rightarrow> unit result" where
  "sync verbose src dst logger w =
     bind (say verbose (start_message src dst) w) (\<lambda>_ w.
     bind (log_sync_start logger w) (\<lambda>_ w.
     bind (os_listdir src w) (\<lambda>src_files w.
     bind (os_listdir dst w) (\<lambda>dst_files w.
     reconcile verbose src dst logger src_files dst_files w))))"

section \<open>Properties of the calls\<close>

subsection \<open>What every call preserves\<close>

lemma bind_Return_iff:
  "bind m f = Return y w' \<longleftrightarrow> (\<exists>x w1. m = Return x w1 \<and> f x w1 = Return y w')"
  by (cases m) auto

lemma world_of_bind:
  "world_of (bind m f) = (case m of Return x w1 \<Rightarrow> world_of (f x w1) | Raise e w1 \<Rightarrow> w1)"
  by (cases m) auto

lemma returns_bind:
  "returns (bind m f) \<longleftrightarrow> (\<exists>x w1. m = Return x w1 \<and> returns (f x w1))"
  by (cases m) auto

lemma returns_iff: "returns r \<longleftrightarrow> (\<exists>x w. r = Return x w)"
  by (cases r) auto

definition ext :: "world \<Rightarrow> world \<Rightarrow> bool" where
  "ext w w' \<longleftrightarrow>
     (\<forall>d. (dirs w' d = None) = (dirs w d = None)) \<and> time_at w' = time_at w \<and>
     strftime_at w' = strftime_at w \<and> create_mode w' = create_mode w \<and> (well_formed w \<longrightarrow> well_formed w')"

lemma ext_refl: "ext w w"
  by (simp add: ext_def)

lemma ext_trans: "ext w w1 \<Longrightarrow> ext w1 w2 \<Longrightarrow> ext w w2"
  by (simp add: ext_def)

lemma store_fields [simp]:
  "stdout (store d n e w) = stdout w" "tick (store d n e w) = tick w"
  "strftime_at (store d n e w) = strftime_at w" "time_at (store d n e w) = time_at w"
  "create_mode (store d n e w) = create_mode w" "trace (store d n e w) = trace w"
  by (simp_all add: store_def split: option.splits)

lemma unlink_fields [simp]:
  "stdout (unlink d n w) = stdout w" "tick (unlink d n w) = tick w"
  "strftime_at (unlink d n w) = strftime_at w" "time_at (unlink d n w) = time_at w"
  "create_mode (unlink d n w) = create_mode w" "trace (unlink d n w) = trace w"
  by (simp_all add: unlink_def split: option.splits)

lemma emit_fields [simp]:
  "dirs (emit ev w) = dirs w" "stdout (emit ev w) = stdout w" "tick (emit ev w) = tick w"
  "strftime_at (emit ev w) = strftime_at w" "time_at (emit ev w) = time_at w"
  "create_mode (emit ev w) = create_mode w" "trace (emit ev w) = trace w @ [ev]"
  by (simp_all add: emit_def)

lemma tock_fields [simp]:
  "dirs (tock w) = dirs w" "stdout (tock w) = stdout w" "tick (tock w) = Suc (tick w)"
  "strftime_at (tock w) = strftime_at w" "time_at (tock w) = time_at w"
  "create_mode (tock w) = create_mode w" "trace (tock w) = trace w"
  by (simp_all add: tock_def)

lemma dirs_store:
  "dirs (store d n e w) d' =
     (if d' = d then map_option (AList.update n e) (dirs w d) else dirs w d')"
  by (simp add: store_def split: option.splits)

lemma dirs_unlink:
  "dirs (unlink d n w) d' =
     (if d' = d then map_option (AList.delete n) (dirs w d) else dirs w d')"
  by (simp add: unlink_def split: option.splits)

lemma lookup_store:
  "lookup (store d n e w) d' n' =
     (if d' = d \<and> n' = n \<and> dirs w d \<noteq> None then Some e else lookup w d' n')"
  by (auto simp: lookup_def dirs_store update_conv' split: option.splits)

lemma lookup_unlink:
  "lookup (unlink d n w) d' n' = (if d' = d \<and> n' = n then None else lookup w d' n')"
  by (auto simp: lookup_def dirs_unlink delete_conv' split: option.splits)

lemma lookup_emit [simp]: "lookup (emit ev w) = lookup w"
  by (simp add: lookup_def fun_eq_iff)

lemma lookup_tock [simp]: "lookup (tock w) = lookup w"
  by (simp add: lookup_def fun_eq_iff)

lemma wf_store: "well_formed w \<Longrightarrow> well_formed (store d n e w)"
  by (auto simp: well_formed_def store_def distinct_update split: option.splits)


lemma wf_emit: "well_formed (emit ev w) = well_formed w"
  by (simp add: well_formed_def emit_def)

lemma wf_tock: "well_formed (tock w) = well_formed w"
  by (simp add: well_formed_def tock_def)

lemma ext_print: "ext w (world_of (print s w))"
  by (simp add: ext_def print_def emit_def well_formed_def)

lemma ext_say: "ext w (world_of (say v s w))"
  using ext_print by (simp add: say_def ext_refl)

lemma ext_Logger_log: "ext w (world_of (Logger_log lg msg w))"
  by (auto simp: ext_def Logger_log_def wf_tock wf_emit wf_store dirs_store
      split: prod.splits option.splits entry.splits)



lemma ext_hash_file: "ext w (world_of (hash_file d n w))"
  by (auto simp: ext_def hash_file_def split: option.splits entry.splits)

lemma ext_shutil_copy: "ext w (world_of (shutil_copy sd n dd w))"
  by (auto simp: ext_def shutil_copy_def Let_def wf_emit wf_tock wf_store dirs_store
      split: option.splits entry.splits)


lemma ext_bind:
  assumes "ext w (world_of m)"
    and "\<And>x w1. m = Return x w1 \<Longrightarrow> ext w1 (world_of (f x w1))"
  shows "ext w (world_of (bind m f))"
  using assms by (cases m) (auto intro: ext_trans)

lemma ext_do_copy: "ext w (world_of (do_copy v src dst lg file w))"
  unfolding do_copy_def log_copy_def
  by (intro ext_bind ext_say ext_Logger_log ext_shutil_copy)

lemma ext_copy_step: "ext w (world_of (copy_step v src dst lg dst_files file w))"
  unfolding copy_step_def
  by (auto intro!: ext_bind ext_do_copy ext_hash_file ext_refl)






subsection \<open>The calls of a run as a language of events\<close>

definition run :: "(bool \<Rightarrow> event list \<Rightarrow> bool) \<Rightarrow> world \<Rightarrow> 'a result \<Rightarrow> bool" where
  "run P w r \<longleftrightarrow> (\<exists>evs. trace (world_of r) = trace w @ evs \<and> P (returns r) evs)"

lemma run_mono: "run P w r \<Longrightarrow> (\<And>b evs. P b evs \<Longrightarrow> Q b evs) \<Longrightarrow> run Q w r"
  by (auto simp: run_def)

lemma run_bind:
  assumes "run P w m"
    and "\<And>x w1. m = Return x w1 \<Longrightarrow> run Q w1 (f x w1)"
    and "\<And>xs ys b. P True xs \<Longrightarrow> Q b ys \<Longrightarrow> R b (xs @ ys)"
    and "\<And>xs. P False xs \<Longrightarrow> R False xs"
  shows "run R w (bind m f)"
proof (cases m)
  case (Return x w1)
  from assms(1) Return obtain xs where xs: "trace w1 = trace w @ xs" "P True xs"
    by (auto simp: run_def)
  from assms(2)[OF Return] obtain ys where
    ys: "trace (world_of (f x w1)) = trace w1 @ ys" "Q (returns (f x w1)) ys"
    by (auto simp: run_def)
  show ?thesis
    using Return xs ys assms(3)[OF xs(2) ys(2)] by (auto simp: run_def)
next
  case (Raise e w1)
  then show ?thesis using assms(1,4) by (auto simp: run_def)
qed

lemma run_say: "run (\<lambda>b evs. b \<and> evs = (if v then [Print s] else [])) w (say v s w)"
  by (simp add: run_def say_def print_def)

lemma run_Logger_log:
  "run (\<lambda>b evs. evs = (if b then [Log msg] else [])) w (Logger_log lg msg w)"
  by (auto simp: run_def Logger_log_def split: prod.splits option.splits entry.splits)

lemma run_os_listdir: "run (\<lambda>b evs. evs = [Listdir p]) w (os_listdir p w)"
  by (auto simp: run_def os_listdir_def split: option.splits)

lemma run_hash_file: "run (\<lambda>b evs. evs = []) w (hash_file d n w)"
  by (auto simp: run_def hash_file_def split: option.splits entry.splits)

lemma run_shutil_copy: "run (\<lambda>b evs. evs = [Copy sd n dd]) w (shutil_copy sd n dd w)"
  by (auto simp: run_def shutil_copy_def Let_def split: option.splits entry.splits)

lemma run_os_remove: "run (\<lambda>b evs. evs = [Remove d n]) w (os_remove d n w)"
  by (auto simp: run_def os_remove_def Let_def split: option.splits entry.splits)

text \<open>The events of one copy: the message printed when verbose, then logged, then the copy.\<close>

definition copy_events :: "bool \<Rightarrow> path \<Rightarrow> path \<Rightarrow> Logger \<Rightarrow> name \<Rightarrow> event list" where
  "copy_events v src dst lg file =
     (if v then [Print (copy_message file src dst)] else []) @
     [Log (copy_message file (lsrc lg) (ldst lg)), Copy src file dst]"

definition remove_events :: "bool \<Rightarrow> path \<Rightarrow> Logger \<Rightarrow> name \<Rightarrow> event list" where
  "remove_events v dst lg file =
     (if v then [Print (remove_message file dst)] else []) @
     [Log (remove_message file (ldst lg)), Remove dst file]"

lemma run_do_copy:
  "run (\<lambda>b evs. evs = copy_events v src dst lg file \<or>
          (\<not> b \<and> evs = (if v then [Print (copy_message file src dst)] else [])))
     w (do_copy v src dst lg file w)"
proof -
  have "run (\<lambda>b evs. evs = [Log (copy_message file (lsrc lg) (ldst lg)), Copy src file dst]
            \<or> (\<not> b \<and> evs = [])) w1
          (bind (log_copy lg file w1) (\<lambda>_ w. shutil_copy src file dst w))" for w1
    unfolding log_copy_def
    by (rule run_bind[OF run_Logger_log run_shutil_copy]) auto
  then show ?thesis
    unfolding do_copy_def
    by (rule run_bind[OF run_say]) (auto simp: copy_events_def)
qed

lemma run_do_remove:
  "run (\<lambda>b evs. evs = remove_events v dst lg file \<or>
          (\<not> b \<and> evs = (if v then [Print (remove_message file dst)] else [])))
     w (bind (say v (remove_message file dst) w) (\<lambda>_ w.
        bind (log_remove lg file w) (\<lambda>_ w. os_remove dst file w)))"
proof -
  have "run (\<lambda>b evs. evs = [Log (remove_message file (ldst lg)), Remove dst file]
            \<or> (\<not> b \<and> evs = [])) w1
          (bind (log_remove lg file w1) (\<lambda>_ w. os_remove dst file w))" for w1
    unfolding log_remove_def
    by (rule run_bind[OF run_Logger_log run_os_remove]) auto
  then show ?thesis
    by (rule run_bind[OF run_say]) (auto simp: remove_events_def)
qed


definition pre_of :: "event list set \<Rightarrow> bool \<Rightarrow> event list \<Rightarrow> bool" where
  "pre_of S b evs \<longleftrightarrow> (\<exists>tl. evs @ tl \<in> S \<and> (b \<longrightarrow> tl = []))"

definition conc :: "event list set \<Rightarrow> event list set \<Rightarrow> event list set" where
  "conc A B = {xs @ ys | xs ys. xs \<in> A \<and> ys \<in> B}"

lemma pre_bind:
  assumes "run (pre_of A) w m"
    and "\<And>x w1. m = Return x w1 \<Longrightarrow> run (pre_of B) w1 (f x w1)"
    and "B \<noteq> {}"
  shows "run (pre_of (conc A B)) w (bind m f)"
proof (rule run_bind[OF assms(1,2)])
  fix xs ys b assume "pre_of A True xs" "pre_of B b ys"
  then obtain tl where "xs \<in> A" "ys @ tl \<in> B" "b \<longrightarrow> tl = []"
    by (auto simp: pre_of_def)
  then have "(xs @ ys) @ tl \<in> conc A B" "b \<longrightarrow> tl = []"
    unfolding conc_def by auto
  then show "pre_of (conc A B) b (xs @ ys)"
    unfolding pre_of_def by blast
next
  fix xs assume "pre_of A False xs"
  then obtain tl where "xs @ tl \<in> A" by (auto simp: pre_of_def)
  moreover from assms(3) obtain ys where "ys \<in> B" by auto
  ultimately have "(xs @ tl) @ ys \<in> conc A B" unfolding conc_def by blast
  then have "xs @ (tl @ ys) \<in> conc A B" by simp
  then show "pre_of (conc A B) False xs" unfolding pre_of_def by blast
qed

lemma pre_mono: "run (pre_of A) w r \<Longrightarrow> A \<subseteq> B \<Longrightarrow> run (pre_of B) w r"
  by (erule run_mono) (auto simp: pre_of_def)

fun copy_lang :: "bool \<Rightarrow> path \<Rightarrow> path \<Rightarrow> Logger \<Rightarrow> name list \<Rightarrow> event list set" where
  "copy_lang v src dst lg [] = {[]}"
| "copy_lang v src dst lg (f # fs) =
     conc {copy_events v src dst lg f, []} (copy_lang v src dst lg fs)"

fun remove_lang :: "bool \<Rightarrow> path \<Rightarrow> Logger \<Rightarrow> name list \<Rightarrow> event list set" where
  "remove_lang v dst lg [] = {[]}"
| "remove_lang v dst lg (f # fs) =
     conc {remove_events v dst lg f, []} (remove_lang v dst lg fs)"

lemma copy_lang_nonempty: "copy_lang v src dst lg fs \<noteq> {}"
  by (induction fs) (auto simp: conc_def)

lemma remove_lang_nonempty: "remove_lang v dst lg fs \<noteq> {}"
  by (induction fs) (auto simp: conc_def)

lemma pre_Return: "run (pre_of {[]}) w (Return x w)"
  by (simp add: run_def pre_of_def)

lemma pre_do_copy: "run (pre_of {copy_events v src dst lg file}) w (do_copy v src dst lg file w)"
proof (rule run_mono[OF run_do_copy])
  fix b evs
  assume "evs = copy_events v src dst lg file \<or>
    (\<not> b \<and> evs = (if v then [Print (copy_message file src dst)] else []))"
  then show "pre_of {copy_events v src dst lg file} b evs"
  proof
    assume "evs = copy_events v src dst lg file"
    then show ?thesis by (simp add: pre_of_def)
  next
    assume "\<not> b \<and> evs = (if v then [Print (copy_message file src dst)] else [])"
    then have "\<not> b" "evs @ [Log (copy_message file (lsrc lg) (ldst lg)), Copy src file dst]
       = copy_events v src dst lg file"
      by (simp_all add: copy_events_def)
    then show ?thesis unfolding pre_of_def by (intro exI[of _ "[Log (copy_message file (lsrc lg) (ldst lg)), Copy src file dst]"]) simp
  qed
qed

lemma conc_unit: "conc {[]} A = A"
  by (auto simp: conc_def)

lemma pre_hash_file: "run (pre_of {[]}) w (hash_file d n w)"
  by (rule run_mono[OF run_hash_file]) (simp add: pre_of_def)

lemma pre_copy_step:
  "run (pre_of {copy_events v src dst lg file, []}) w (copy_step v src dst lg dst_files file w)"
proof -
  let ?L = "{copy_events v src dst lg file, []}"
  have a: "run (pre_of ?L) w1 (do_copy v src dst lg file w1)" for w1
    by (rule pre_mono[OF pre_do_copy]) simp
  have b: "run (pre_of ?L) w1 (Return () w1)" for w1
    by (rule pre_mono[OF pre_Return]) simp
  have c: "run (pre_of ?L) w1
     (if sh \<noteq> dh then do_copy v src dst lg file w1 else Return () w1)" for w1 sh dh
    using a b by simp
  have d: "run (pre_of (conc {[]} ?L)) w1
     (bind (hash_file dst file w1) (\<lambda>dst_hash w.
        if sh \<noteq> dst_hash then do_copy v src dst lg file w else Return () w))" for w1 sh
    by (rule pre_bind[OF pre_hash_file c]) simp
  have e: "run (pre_of (conc {[]} ?L)) w
     (bind (hash_file src file w) (\<lambda>src_hash w.
      bind (hash_file dst file w) (\<lambda>dst_hash w.
        if src_hash \<noteq> dst_hash then do_copy v src dst lg file w else Return () w)))"
    using d unfolding conc_unit by (rule pre_bind[OF pre_hash_file, unfolded conc_unit]) simp
  show ?thesis
    unfolding copy_step_def using a e by (simp add: conc_unit)
qed


lemma pre_copy_loop:
  "run (pre_of (copy_lang v src dst lg files)) w (copy_loop v src dst lg dst_files files w)"
proof (induction files arbitrary: w)
  case Nil
  show ?case by (simp add: pre_Return)
next
  case (Cons f fs)
  show ?case
    by (simp, rule pre_bind[OF pre_copy_step Cons copy_lang_nonempty])
qed

lemma pre_remove_step:
  "run (pre_of {remove_events v dst lg file, []}) w (remove_step v dst lg src_files file w)"
proof -
  have a: "run (pre_of {remove_events v dst lg file, []}) w
     (bind (say v (remove_message file dst) w) (\<lambda>_ w.
        bind (log_remove lg file w) (\<lambda>_ w. os_remove dst file w)))"
    by (rule run_mono[OF run_do_remove]) (auto simp: pre_of_def remove_events_def)
  have b: "run (pre_of {remove_events v dst lg file, []}) w (Return () w)"
    by (rule pre_mono[OF pre_Return]) simp
  show ?thesis
    unfolding remove_step_def using a b by simp
qed

lemma pre_remove_loop:
  "run (pre_of (remove_lang v dst lg files)) w (remove_loop v dst lg src_files files w)"
proof (induction files arbitrary: w)
  case Nil
  show ?case by (simp add: pre_Return)
next
  case (Cons f fs)
  show ?case
    by (simp, rule pre_bind[OF pre_remove_step Cons remove_lang_nonempty])
qed

definition say_events :: "bool \<Rightarrow> string \<Rightarrow> event list" where
  "say_events v s = (if v then [Print s] else [])"

lemma pre_say: "run (pre_of {say_events v s}) w (say v s w)"
  by (rule run_mono[OF run_say]) (simp add: pre_of_def say_events_def)

lemma pre_Logger_log: "run (pre_of {[Log msg]}) w (Logger_log lg msg w)"
  by (rule run_mono[OF run_Logger_log]) (simp add: pre_of_def)

lemma pre_os_listdir: "run (pre_of {[Listdir p]}) w (os_listdir p w)"
  by (rule run_mono[OF run_os_listdir]) (simp add: pre_of_def)

definition tail_lang :: "bool \<Rightarrow> path \<Rightarrow> path \<Rightarrow> Logger \<Rightarrow> event list set" where
  "tail_lang v src dst lg =
     conc {say_events v (end_message src dst)} {[Log (end_message (lsrc lg) (ldst lg))]}"

definition reconcile_lang ::
  "bool \<Rightarrow> path \<Rightarrow> path \<Rightarrow> Logger \<Rightarrow> name list \<Rightarrow> name list \<Rightarrow> event list set" where
  "reconcile_lang v src dst lg src_files dst_files =
     conc (copy_lang v src dst lg src_files)
       (conc (remove_lang v dst lg dst_files) (tail_lang v src dst lg))"

lemma conc_nonempty: "A \<noteq> {} \<Longrightarrow> B \<noteq> {} \<Longrightarrow> conc A B \<noteq> {}"
  unfolding conc_def by blast

lemma tail_lang_nonempty: "tail_lang v src dst lg \<noteq> {}"
  unfolding tail_lang_def by (intro conc_nonempty) simp_all

lemma pre_reconcile:
  "run (pre_of (reconcile_lang v src dst lg src_files dst_files)) w
     (reconcile v src dst lg src_files dst_files w)"
  unfolding reconcile_def reconcile_lang_def tail_lang_def log_sync_end_def
  by (intro pre_bind pre_copy_loop pre_remove_loop pre_say pre_Logger_log
      conc_nonempty remove_lang_nonempty) simp_all

definition head_events :: "bool \<Rightarrow> path \<Rightarrow> path \<Rightarrow> Logger \<Rightarrow> event list" where
  "head_events v src dst lg =
     say_events v (start_message src dst) @
     [Log (start_message (lsrc lg) (ldst lg)), Listdir src, Listdir dst]"

definition sync_lang :: "bool \<Rightarrow> path \<Rightarrow> path \<Rightarrow> Logger \<Rightarrow> event list set" where
  "sync_lang v src dst lg =
     (\<Union>src_files dst_files.
        conc {head_events v src dst lg} (reconcile_lang v src dst lg src_files dst_files))"

lemma pre_bind_dep:
  assumes "run (pre_of A) w m"
    and "\<And>x w1. m = Return x w1 \<Longrightarrow> run (pre_of (B x)) w1 (f x w1)"
    and "\<And>x. B x \<noteq> {}"
  shows "run (pre_of (\<Union>x. conc A (B x))) w (bind m f)"
proof (cases m)
  case (Return x w1)
  have "run (pre_of (conc A (B x))) w (bind m f)"
  proof (rule pre_bind[OF assms(1) _ assms(3)])
    fix y w2 assume "m = Return y w2"
    with Return assms(2) show "run (pre_of (B x)) w2 (f y w2)" by auto
  qed
  then show ?thesis by (rule pre_mono) blast
next
  case (Raise e w1)
  from assms(1) Raise obtain evs tl where
    evs: "trace w1 = trace w @ evs" "evs @ tl \<in> A"
    by (auto simp: run_def pre_of_def)
  from assms(3) obtain ys where "ys \<in> B undefined" by blast
  with evs(2) have "(evs @ tl) @ ys \<in> conc A (B undefined)"
    unfolding conc_def by blast
  then have "evs @ (tl @ ys) \<in> (\<Union>x. conc A (B x))" by auto
  then have "pre_of (\<Union>x. conc A (B x)) False evs"
    unfolding pre_of_def by blast
  with evs(1) Raise show ?thesis by (auto simp: run_def)
qed

lemma conc_single: "conc {a} B = (@) a ` B"
  unfolding conc_def by auto

lemma reconcile_lang_nonempty: "reconcile_lang v src dst lg sf df \<noteq> {}"
  unfolding reconcile_lang_def
  by (intro conc_nonempty copy_lang_nonempty remove_lang_nonempty tail_lang_nonempty)

lemma pre_sync: "run (pre_of (sync_lang v src dst lg)) w (sync v src dst lg w)"
proof -
  let ?R = "reconcile_lang v src dst lg"
  have d: "run (pre_of (\<Union>df. conc {[Listdir dst]} (?R sf df))) w1
      (bind (os_listdir dst w1) (\<lambda>dst_files w. reconcile v src dst lg sf dst_files w))" for sf w1
    by (rule pre_bind_dep[OF pre_os_listdir pre_reconcile reconcile_lang_nonempty])
  have ned: "(\<Union>df. conc {[Listdir dst]} (?R sf df)) \<noteq> {}" for sf
    using reconcile_lang_nonempty[of v src dst lg sf "[]"] by (auto simp: conc_single)
  have s: "run (pre_of (\<Union>sf. conc {[Listdir src]} (\<Union>df. conc {[Listdir dst]} (?R sf df)))) w1
      (bind (os_listdir src w1) (\<lambda>src_files w.
       bind (os_listdir dst w) (\<lambda>dst_files w. reconcile v src dst lg src_files dst_files w)))" for w1
    by (rule pre_bind_dep[OF pre_os_listdir d ned])
  let ?S = "(\<Union>sf. conc {[Listdir src]} (\<Union>df. conc {[Listdir dst]} (?R sf df)))"
  have ne: "?S \<noteq> {}"
    using ned[of "[]"] by (auto simp: conc_single)
  have l: "run (pre_of (conc {[Log (start_message (lsrc lg) (ldst lg))]} ?S)) w1
      (bind (log_sync_start lg w1) (\<lambda>_ w.
       bind (os_listdir src w) (\<lambda>src_files w.
       bind (os_listdir dst w) (\<lambda>dst_files w. reconcile v src dst lg src_files dst_files w))))" for w1
    unfolding log_sync_start_def
    by (rule pre_bind[OF pre_Logger_log s ne])
  have ne2: "conc {[Log (start_message (lsrc lg) (ldst lg))]} ?S \<noteq> {}"
    by (rule conc_nonempty[OF _ ne]) simp
  have r: "run (pre_of (conc {say_events v (start_message src dst)}
      (conc {[Log (start_message (lsrc lg) (ldst lg))]} ?S))) w (sync v src dst lg w)"
    unfolding sync_def by (rule pre_bind[OF pre_say l ne2])
  have "conc {say_events v (start_message src dst)}
      (conc {[Log (start_message (lsrc lg) (ldst lg))]} ?S) \<subseteq> sync_lang v src dst lg"
  proof
    fix evs assume "evs \<in> conc {say_events v (start_message src dst)}
      (conc {[Log (start_message (lsrc lg) (ldst lg))]} ?S)"
    then obtain sf df ys where "ys \<in> ?R sf df"
      "evs = say_events v (start_message src dst) @ [Log (start_message (lsrc lg) (ldst lg))] @
         [Listdir src] @ [Listdir dst] @ ys"
      unfolding conc_single by blast
    then have "evs \<in> conc {head_events v src dst lg} (?R sf df)"
      unfolding conc_single head_events_def by simp
    then show "evs \<in> sync_lang v src dst lg"
      unfolding sync_lang_def by blast
  qed
  with r show ?thesis by (rule pre_mono)
qed

subsection \<open>The events of a pass\<close>

definition pass_events :: "world \<Rightarrow> 'a result \<Rightarrow> event list" where
  "pass_events w r = drop (length (trace w)) (trace (world_of r))"


definition announces :: "Logger \<Rightarrow> event option \<Rightarrow> event \<Rightarrow> bool" where
  "announces lg p e =
     (case e of
        Copy sd f dd \<Rightarrow> p = Some (Log (copy_message f (lsrc lg) (ldst lg)))
      | Remove d f \<Rightarrow> p = Some (Log (remove_message f (ldst lg)))
      | Listdir q \<Rightarrow> p = Some (Log (start_message (lsrc lg) (ldst lg))) \<or> (\<exists>q'. p = Some (Listdir q'))
      | _ \<Rightarrow> True)"

fun log_first :: "Logger \<Rightarrow> event option \<Rightarrow> event list \<Rightarrow> bool" where
  "log_first lg p [] = True"
| "log_first lg p (e # es) = (announces lg p e \<and> log_first lg (Some e) es)"

lemma run_pass_events:
  "run P w r \<Longrightarrow> P (returns r) (pass_events w r) \<and> trace (world_of r) = trace w @ pass_events w r"
  by (auto simp: run_def pass_events_def)


lemma log_first_append:
  "log_first lg p (xs @ ys) = (log_first lg p xs \<and> log_first lg (if xs = [] then p else Some (last xs)) ys)"
  by (induction xs arbitrary: p) auto

lemma announces_None: "announces lg None e \<Longrightarrow> announces lg p e"
  by (auto simp: announces_def split: event.splits)

lemma log_first_None: "log_first lg None ys \<Longrightarrow> log_first lg p ys"
  by (cases ys) (auto intro: announces_None)

lemma log_first_blocks: "log_first lg p xs \<Longrightarrow> log_first lg None ys \<Longrightarrow> log_first lg p (xs @ ys)"
  by (simp add: log_first_append log_first_None)

lemma log_first_copy_events: "log_first lg None (copy_events v src dst lg f)"
  by (simp add: copy_events_def announces_def)

lemma log_first_remove_events: "log_first lg None (remove_events v dst lg f)"
  by (simp add: remove_events_def announces_def)

lemma log_first_copy_lang: "evs \<in> copy_lang v src dst lg fs \<Longrightarrow> log_first lg None evs"
proof (induction fs arbitrary: evs)
  case Nil
  then show ?case by simp
next
  case (Cons f fs)
  then obtain b r where "evs = b @ r" "b = copy_events v src dst lg f \<or> b = []"
    "r \<in> copy_lang v src dst lg fs"
    by (auto simp: conc_def)
  with Cons.IH show ?case
    by (auto intro!: log_first_blocks log_first_copy_events)
qed

lemma log_first_remove_lang: "evs \<in> remove_lang v dst lg fs \<Longrightarrow> log_first lg None evs"
proof (induction fs arbitrary: evs)
  case Nil
  then show ?case by simp
next
  case (Cons f fs)
  then obtain b r where "evs = b @ r" "b = remove_events v dst lg f \<or> b = []"
    "r \<in> remove_lang v dst lg fs"
    by (auto simp: conc_def)
  with Cons.IH show ?case
    by (auto intro!: log_first_blocks log_first_remove_events)
qed

lemma sync_lang_cases:
  assumes "evs \<in> sync_lang v src dst lg"
  obtains sf df c r where "c \<in> copy_lang v src dst lg sf" "r \<in> remove_lang v dst lg df"
    "evs = head_events v src dst lg @ c @ r @ say_events v (end_message src dst) @
       [Log (end_message (lsrc lg) (ldst lg))]"
  using assms unfolding sync_lang_def reconcile_lang_def tail_lang_def conc_def
  by auto

lemma log_first_sync_lang:
  assumes "evs \<in> sync_lang v src dst lg"
  shows "log_first lg None evs"
proof -
  from assms obtain sf df c r where c: "c \<in> copy_lang v src dst lg sf"
    and r: "r \<in> remove_lang v dst lg df"
    and evs: "evs = head_events v src dst lg @ c @ r @ say_events v (end_message src dst) @
       [Log (end_message (lsrc lg) (ldst lg))]"
    by (rule sync_lang_cases)
  have h: "log_first lg None (head_events v src dst lg)"
    by (simp add: head_events_def say_events_def announces_def)
  have t: "log_first lg None (say_events v (end_message src dst) @
       [Log (end_message (lsrc lg) (ldst lg))])"
    by (simp add: say_events_def announces_def)
  show ?thesis
    unfolding evs
    by (intro log_first_blocks h t log_first_copy_lang[OF c] log_first_remove_lang[OF r])
qed

lemma log_first_prefix: "log_first lg p (xs @ ys) \<Longrightarrow> log_first lg p xs"
  by (simp add: log_first_append)

lemma sync_log_first: "log_first lg None (pass_events w (sync v src dst lg w))"
proof -
  from run_pass_events[OF pre_sync, of v src dst lg w]
  obtain tl where "pass_events w (sync v src dst lg w) @ tl \<in> sync_lang v src dst lg"
    unfolding pre_of_def by blast
  then show ?thesis
    by (auto dest!: log_first_sync_lang log_first_prefix)
qed


lemma copy_lang_events:
  "evs \<in> copy_lang v src dst lg fs \<Longrightarrow> e \<in> set evs \<Longrightarrow>
     (\<exists>f\<in>set fs. e \<in> set (copy_events v src dst lg f))"
proof (induction fs arbitrary: evs)
  case Nil
  then show ?case by simp
next
  case (Cons f fs)
  from Cons.prems(1) obtain b r where "evs = b @ r" "b = copy_events v src dst lg f \<or> b = []"
    "r \<in> copy_lang v src dst lg fs"
    by (auto simp: conc_def)
  with Cons.IH[of r] Cons.prems(2) show ?case by auto
qed

lemma remove_lang_events:
  "evs \<in> remove_lang v dst lg fs \<Longrightarrow> e \<in> set evs \<Longrightarrow>
     (\<exists>f\<in>set fs. e \<in> set (remove_events v dst lg f))"
proof (induction fs arbitrary: evs)
  case Nil
  then show ?case by simp
next
  case (Cons f fs)
  from Cons.prems(1) obtain b r where "evs = b @ r" "b = remove_events v dst lg f \<or> b = []"
    "r \<in> remove_lang v dst lg fs"
    by (auto simp: conc_def)
  with Cons.IH[of r] Cons.prems(2) show ?case by auto
qed

lemma prefix_split:
  assumes "evs @ rest = A @ B"
  shows "\<exists>xs ys. evs = xs @ ys \<and> set xs \<subseteq> set A \<and> set ys \<subseteq> set B"
proof -
  from assms consider us where "evs = A @ us" "B = us @ rest" | us where "evs @ us = A"
    by (auto simp: append_eq_append_conv2)
  then show ?thesis
  proof cases
    case 1
    then show ?thesis by (intro exI[of _ A] exI[of _ us]) auto
  next
    case 2
    then show ?thesis by (intro exI[of _ evs] exI[of _ "[]"]) auto
  qed
qed

lemma sync_copies_first:
  "\<exists>xs ys. pass_events w (sync v src dst lg w) = xs @ ys \<and>
     filter is_Remove xs = [] \<and> filter is_Copy ys = []"
proof -
  from run_pass_events[OF pre_sync, of v src dst lg w]
  obtain tl where "pass_events w (sync v src dst lg w) @ tl \<in> sync_lang v src dst lg"
    unfolding pre_of_def by blast
  then obtain sf df c r where c: "c \<in> copy_lang v src dst lg sf"
    and r: "r \<in> remove_lang v dst lg df"
    and evs: "pass_events w (sync v src dst lg w) @ tl =
       (head_events v src dst lg @ c) @ (r @ say_events v (end_message src dst) @
       [Log (end_message (lsrc lg) (ldst lg))])"
    by (auto elim: sync_lang_cases)
  from prefix_split[OF evs] obtain xs ys where
    s: "pass_events w (sync v src dst lg w) = xs @ ys"
    "set xs \<subseteq> set (head_events v src dst lg @ c)"
    "set ys \<subseteq> set (r @ say_events v (end_message src dst) @
       [Log (end_message (lsrc lg) (ldst lg))])"
    by blast
  have nr_head: "\<not> is_Remove e" if "e \<in> set (head_events v src dst lg)" for e
    using that by (auto simp: head_events_def say_events_def split: if_splits)
  have nr_c: "\<not> is_Remove e" if "e \<in> set c" for e
    using copy_lang_events[OF c that] by (auto simp: copy_events_def split: if_splits)
  have nc_r: "\<not> is_Copy e" if "e \<in> set r" for e
    using remove_lang_events[OF r that] by (auto simp: remove_events_def split: if_splits)
  have nc_tail: "\<not> is_Copy e" if "e \<in> set (say_events v (end_message src dst) @
       [Log (end_message (lsrc lg) (ldst lg))])" for e
    using that by (auto simp: say_events_def split: if_splits)
  have "\<not> is_Remove e" if "e \<in> set xs" for e
  proof -
    from that s(2) have "e \<in> set (head_events v src dst lg) \<or> e \<in> set c" by auto
    then show ?thesis using nr_head nr_c by blast
  qed
  moreover have "\<not> is_Copy e" if "e \<in> set ys" for e
  proof -
    from that s(3) have "e \<in> set r \<or> e \<in> set (say_events v (end_message src dst) @
       [Log (end_message (lsrc lg) (ldst lg))])" by auto
    then show ?thesis using nc_r nc_tail by blast
  qed
  ultimately show ?thesis
    using s(1) by (auto simp: filter_empty_conv)
qed






subsection \<open>Directories a pass leaves alone\<close>

fun error_of :: "'a result \<Rightarrow> error option" where
  "error_of (Return x w) = None"
| "error_of (Raise e w) = Some e"

lemma keep_bind:
  assumes "dirs (world_of m) d = dirs w d"
    and "\<And>x w1. m = Return x w1 \<Longrightarrow> dirs (world_of (f x w1)) d = dirs w1 d"
  shows "dirs (world_of (bind m f)) d = dirs w d"
  using assms by (cases m) auto

lemma dirs_say [simp]: "dirs (world_of (say v s w)) = dirs w"
  by (simp add: say_def print_def)

lemma dirs_Logger_log:
  "d \<noteq> fst (log_file_path lg) \<Longrightarrow> dirs (world_of (Logger_log lg msg w)) d = dirs w d"
  by (auto simp: Logger_log_def dirs_store split: prod.splits option.splits entry.splits)

lemma dirs_os_listdir [simp]: "dirs (world_of (os_listdir p w)) = dirs w"
  by (simp add: os_listdir_def split: option.splits)

lemma os_listdir_Return:
  "os_listdir p w = Return fs w1 \<Longrightarrow> dirs w1 = dirs w \<and> (\<exists>es. dirs w p = Some es \<and> fs = map fst es)"
  by (auto simp: os_listdir_def split: option.splits)

lemma world_of_hash_file [simp]: "world_of (hash_file d n w) = w"
  by (simp add: hash_file_def split: option.splits entry.splits)

lemma dirs_shutil_copy:
  "d \<noteq> dd \<or> sd = dd \<Longrightarrow> dirs (world_of (shutil_copy sd n dd w)) d = dirs w d"
  by (auto simp: shutil_copy_def Let_def dirs_store split: option.splits entry.splits)

lemma dirs_os_remove:
  "d' \<noteq> d \<Longrightarrow> dirs (world_of (os_remove d n w)) d' = dirs w d'"
  by (auto simp: os_remove_def Let_def dirs_unlink split: option.splits entry.splits)

lemma keep_do_copy:
  assumes "fst (log_file_path lg) \<noteq> src"
  shows "dirs (world_of (do_copy v src dst lg file w)) src = dirs w src"
  unfolding do_copy_def log_copy_def
  by (intro keep_bind) (simp_all add: dirs_Logger_log assms[symmetric] dirs_shutil_copy)

lemma keep_copy_step:
  assumes "fst (log_file_path lg) \<noteq> src"
  shows "dirs (world_of (copy_step v src dst lg dst_files file w)) src = dirs w src"
  unfolding copy_step_def
  by (auto intro!: keep_bind simp: keep_do_copy[OF assms])

lemma keep_copy_loop:
  assumes "fst (log_file_path lg) \<noteq> src"
  shows "dirs (world_of (copy_loop v src dst lg dst_files files w)) src = dirs w src"
  by (induction files arbitrary: w) (auto intro!: keep_bind simp: keep_copy_step[OF assms])

lemma keep_remove_step:
  assumes "fst (log_file_path lg) \<noteq> d" "d \<noteq> dst \<or> file \<in> set src_files"
  shows "dirs (world_of (remove_step v dst lg src_files file w)) d = dirs w d"
  using assms(2) assms(1)[symmetric] unfolding remove_step_def log_remove_def
  by (auto intro!: keep_bind simp: dirs_Logger_log dirs_os_remove)

lemma keep_remove_loop:
  assumes "fst (log_file_path lg) \<noteq> d" "d \<noteq> dst \<or> set files \<subseteq> set src_files"
  shows "dirs (world_of (remove_loop v dst lg src_files files w)) d = dirs w d"
  using assms(2)
  by (induction files arbitrary: w) (auto intro!: keep_bind keep_remove_step[OF assms(1)])

lemma keep_reconcile:
  assumes "fst (log_file_path lg) \<noteq> src" "src \<noteq> dst \<or> set dst_files \<subseteq> set src_files"
  shows "dirs (world_of (reconcile v src dst lg src_files dst_files w)) src = dirs w src"
  unfolding reconcile_def log_sync_end_def
  by (intro keep_bind keep_copy_loop keep_remove_loop assms)
    (simp_all add: dirs_Logger_log assms(1)[symmetric])

lemma keep_sync:
  assumes "fst (log_file_path lg) \<noteq> src"
  shows "dirs (world_of (sync v src dst lg w)) src = dirs w src"
proof -
  have r: "dirs (world_of (bind (os_listdir dst w2) (\<lambda>dst_files w.
       reconcile v src dst lg src_files dst_files w))) src = dirs w2 src"
    if "os_listdir src w1 = Return src_files w2" for w1 w2 src_files
  proof (rule keep_bind)
    show "dirs (world_of (os_listdir dst w2)) src = dirs w2 src" by simp
  next
    fix dst_files w3 assume d: "os_listdir dst w2 = Return dst_files w3"
    have "set dst_files \<subseteq> set src_files" if "src = dst"
      using os_listdir_Return[OF d] os_listdir_Return[OF \<open>os_listdir src w1 = Return src_files w2\<close>] that
      by auto
    then show "dirs (world_of (reconcile v src dst lg src_files dst_files w3)) src = dirs w3 src"
      by (intro keep_reconcile assms) auto
  qed
  have l: "dirs (world_of (bind (os_listdir src w1) (\<lambda>src_files w.
       bind (os_listdir dst w) (\<lambda>dst_files w.
       reconcile v src dst lg src_files dst_files w)))) src = dirs w1 src" for w1
    by (rule keep_bind) (simp_all add: r)
  have s: "dirs (world_of (bind (log_sync_start lg w1) (\<lambda>_ w.
       bind (os_listdir src w) (\<lambda>src_files w.
       bind (os_listdir dst w) (\<lambda>dst_files w.
       reconcile v src dst lg src_files dst_files w))))) src = dirs w1 src" for w1
    unfolding log_sync_start_def
    by (rule keep_bind) (simp_all add: l dirs_Logger_log assms[symmetric])
  show ?thesis
    unfolding sync_def by (rule keep_bind) (simp_all add: s)
qed

subsection \<open>A directory that cannot be listed\<close>

lemma lookup_Logger_log:
  "(d, n) \<noteq> log_file_path lg \<Longrightarrow> lookup (world_of (Logger_log lg msg w)) d n = lookup w d n"
  by (auto simp: Logger_log_def lookup_store split: prod.splits option.splits entry.splits)

lemma lookup_say [simp]: "lookup (world_of (say v s w)) = lookup w"
  by (simp add: lookup_def fun_eq_iff)

lemma lookup_os_listdir [simp]: "lookup (world_of (os_listdir p w)) = lookup w"
  by (simp add: lookup_def fun_eq_iff)

lemma ext_None: "ext w w' \<Longrightarrow> (dirs w' d = None) = (dirs w d = None)"
  by (simp add: ext_def)

lemma say_Return: "\<exists>w1. say v s w = Return () w1"
  by (simp add: say_def print_def)

lemma missing_directory:
  assumes "dirs w src = None \<or> dirs w dst = None"
  shows "\<not> returns (sync v src dst lg w) \<and>
    filter is_Copy (pass_events w (sync v src dst lg w)) = [] \<and>
    filter is_Remove (pass_events w (sync v src dst lg w)) = [] \<and>
    (returns (log_sync_start lg (world_of (say v (start_message src dst) w))) \<longrightarrow>
       error_of (sync v src dst lg w) =
         Some (DirectoryAccessError (if dirs w src = None then src else dst))) \<and>
    (\<forall>d n. (d, n) \<noteq> log_file_path lg \<longrightarrow>
       lookup (world_of (sync v src dst lg w)) d n = lookup w d n)"
proof -
  obtain w1 where w1: "say v (start_message src dst) w = Return () w1"
    using say_Return by blast
  have e1: "ext w w1" "trace w1 = trace w @ say_events v (start_message src dst)"
    "lookup w1 = lookup w"
    using ext_say[of w v "start_message src dst"] run_pass_events[OF pre_say[where v=v and s="start_message src dst" and w=w]]
      lookup_say[of v "start_message src dst" w] w1
    by (auto simp: pre_of_def)
  show ?thesis
  proof (cases "log_sync_start lg w1")
    case (Raise e w2)
    then have "w2 = w1"
      by (auto simp: log_sync_start_def Logger_log_def split: prod.splits option.splits entry.splits)
    with Raise w1 e1 show ?thesis
      by (simp add: sync_def pass_events_def say_events_def)
  next
    case (Return u w2)
    have e2: "ext w1 w2" "trace w2 = trace w1 @ [Log (start_message (lsrc lg) (ldst lg))]"
      "\<forall>d n. (d, n) \<noteq> log_file_path lg \<longrightarrow> lookup w2 d n = lookup w1 d n"
      using ext_Logger_log[of w1 lg "start_message (lsrc lg) (ldst lg)"]
        run_pass_events[OF run_Logger_log[where msg="start_message (lsrc lg) (ldst lg)" and w=w1 and lg=lg]]
        lookup_Logger_log[where lg=lg and msg="start_message (lsrc lg) (ldst lg)" and w=w1] Return
      by (auto simp: log_sync_start_def)
    have n2: "(dirs w2 d = None) = (dirs w d = None)" for d
      using ext_None[OF e1(1)] ext_None[OF e2(1)] by simp
    show ?thesis
    proof (cases "dirs w src = None")
      case True
      then have "os_listdir src w2 = Raise (DirectoryAccessError src) (emit (Listdir src) w2)"
        using n2[of src] by (simp add: os_listdir_def)
      with w1 Return e1 e2 True show ?thesis
        by (simp add: sync_def pass_events_def say_events_def)
    next
      case False
      then obtain es where es: "dirs w2 src = Some es"
        using n2[of src] by auto
      then have l1: "os_listdir src w2 = Return (map fst es) (emit (Listdir src) w2)"
        by (simp add: os_listdir_def)
      from False assms have "dirs w dst = None" by auto
      then have "os_listdir dst (emit (Listdir src) w2) =
          Raise (DirectoryAccessError dst) (emit (Listdir dst) (emit (Listdir src) w2))"
        using n2[of dst] by (simp add: os_listdir_def)
      with w1 Return e1 e2 False l1 show ?thesis
        by (auto simp: sync_def pass_events_def say_events_def)
    qed
  qed
qed

subsection \<open>A pass that returns, with the log file outside both directories\<close>

definition digest_of :: "entry option \<Rightarrow> string option" where
  "digest_of e = (case e of Some (File c m t) \<Rightarrow> Some (hexdigest (md5 c)) | _ \<Rightarrow> None)"

definition needs_copy :: "world \<Rightarrow> path \<Rightarrow> path \<Rightarrow> name \<Rightarrow> bool" where
  "needs_copy w src dst n \<longleftrightarrow>
     lookup w dst n = None \<or> digest_of (lookup w src n) \<noteq> digest_of (lookup w dst n)"

definition copies :: "bool \<Rightarrow> path \<Rightarrow> path \<Rightarrow> Logger \<Rightarrow> world \<Rightarrow> name list \<Rightarrow> event list" where
  "copies v src dst lg w fs =
     concat (map (\<lambda>f. if needs_copy w src dst f then copy_events v src dst lg f else []) fs)"

definition removals :: "bool \<Rightarrow> path \<Rightarrow> Logger \<Rightarrow> name list \<Rightarrow> name list \<Rightarrow> event list" where
  "removals v dst lg src_files fs =
     concat (map (\<lambda>f. if f \<notin> set src_files then remove_events v dst lg f else []) fs)"

lemma not_log_file [simp]:
  "fst (log_file_path lg) \<noteq> d \<Longrightarrow> ((d, n) = log_file_path lg) = False"
  "fst (log_file_path lg) \<noteq> d \<Longrightarrow> (log_file_path lg = (d, n)) = False"
  by (cases "log_file_path lg"; auto)+

lemma names_lookup: "names w d = {n. lookup w d n \<noteq> None}"
  by (simp add: names_def lookup_def dom_map_of_conv_image_fst[symmetric] dom_def
      split: option.splits)

lemma say_Return_iff:
  "say v s w = Return x w1 \<Longrightarrow>
     dirs w1 = dirs w \<and> lookup w1 = lookup w \<and> trace w1 = trace w @ say_events v s \<and>
     time_at w1 = time_at w"
  by (auto simp: say_def print_def say_events_def lookup_def fun_eq_iff split: if_splits)

lemma Logger_log_Return:
  assumes "Logger_log lg msg w = Return x w1"
  shows "\<forall>d. d \<noteq> fst (log_file_path lg) \<longrightarrow> dirs w1 d = dirs w d"
    and "\<forall>d n. (d, n) \<noteq> log_file_path lg \<longrightarrow> lookup w1 d n = lookup w d n"
    and "trace w1 = trace w @ [Log msg]"
    and "time_at w1 = time_at w"
  using assms dirs_Logger_log[of _ lg msg w] lookup_Logger_log[of _ _ lg msg w]
    run_pass_events[OF run_Logger_log[of msg w lg]] ext_Logger_log[of w lg msg]
  by (auto simp: ext_def)

lemma hash_file_Return:
  "hash_file d n w = Return h w1 \<Longrightarrow>
     w1 = w \<and> (\<exists>c m t. lookup w d n = Some (File c m t) \<and> h = hexdigest (md5 c))"
  by (auto simp: hash_file_def split: option.splits entry.splits)

lemma shutil_copy_Return:
  assumes "shutil_copy sd n dd w = Return x w1"
  shows "sd \<noteq> dd"
    and "\<exists>c m t. lookup w sd n = Some (File c m t) \<and>
           lookup w1 dd n = Some (File c m (time_at w (tick w)))"
    and "\<forall>d' n'. (d', n') \<noteq> (dd, n) \<longrightarrow> lookup w1 d' n' = lookup w d' n'"
    and "trace w1 = trace w @ [Copy sd n dd]"
    and "time_at w1 = time_at w"
  using assms
  by (auto simp: shutil_copy_def Let_def lookup_store split: option.splits entry.splits if_splits)

lemma os_remove_Return:
  assumes "os_remove d n w = Return x w1"
  shows "\<exists>c m t. lookup w d n = Some (File c m t)"
    and "\<forall>d' n'. lookup w1 d' n' = (if (d', n') = (d, n) then None else lookup w d' n')"
    and "trace w1 = trace w @ [Remove d n]"
  using assms
  by (auto simp: os_remove_def Let_def lookup_unlink split: option.splits entry.splits)

lemma do_copy_Return:
  assumes r: "do_copy v src dst lg f w = Return () w1"
    and l: "fst (log_file_path lg) \<noteq> src" "fst (log_file_path lg) \<noteq> dst"
  shows "src \<noteq> dst \<and>
    (\<exists>c m t k. lookup w src f = Some (File c m t) \<and>
       lookup w1 dst f = Some (File c m (time_at w k))) \<and>
    (\<forall>d n. (d, n) \<noteq> (dst, f) \<and> (d, n) \<noteq> log_file_path lg \<longrightarrow> lookup w1 d n = lookup w d n) \<and>
    trace w1 = trace w @ copy_events v src dst lg f"
proof -
  from r obtain wa wb where
    a: "say v (copy_message f src dst) w = Return () wa" and
    b: "Logger_log lg (copy_message f (lsrc lg) (ldst lg)) wa = Return () wb" and
    c: "shutil_copy src f dst wb = Return () w1"
    by (auto simp: do_copy_def log_copy_def bind_Return_iff)
  note A = say_Return_iff[OF a]
  note B = Logger_log_Return[OF b]
  note C = shutil_copy_Return[OF c]
  have ls: "(src, f) \<noteq> log_file_path lg" "(dst, f) \<noteq> log_file_path lg"
    using l by (metis fst_conv)+
  from C(2) obtain c0 m0 t0 where
    c0: "lookup wb src f = Some (File c0 m0 t0)"
        "lookup w1 dst f = Some (File c0 m0 (time_at wb (tick wb)))"
    by blast
  have "lookup w src f = Some (File c0 m0 t0)"
    using c0(1) B(2) ls(1) A by simp
  moreover have "lookup w1 dst f = Some (File c0 m0 (time_at w (tick wb)))"
    using c0(2) B(4) A by simp
  moreover have "lookup w1 d n = lookup w d n"
    if "(d, n) \<noteq> (dst, f)" "(d, n) \<noteq> log_file_path lg" for d n
    using that C(3) B(2) A by simp
  moreover have "trace w1 = trace w @ copy_events v src dst lg f"
    using C(4) B(3) A by (simp add: copy_events_def say_events_def)
  ultimately show ?thesis using C(1) by blast
qed

lemma copy_step_Return:
  assumes r: "copy_step v src dst lg dst_files f w = Return () w1"
    and l: "fst (log_file_path lg) \<noteq> src" "fst (log_file_path lg) \<noteq> dst"
    and s: "(f \<in> set dst_files) = (lookup w dst f \<noteq> None)"
  shows "(\<exists>c m t. lookup w src f = Some (File c m t) \<and>
       (if needs_copy w src dst f then \<exists>k. lookup w1 dst f = Some (File c m (time_at w k))
        else lookup w1 dst f = lookup w dst f)) \<and>
    (\<forall>d n. (d, n) \<noteq> (dst, f) \<and> (d, n) \<noteq> log_file_path lg \<longrightarrow> lookup w1 d n = lookup w d n) \<and>
    (needs_copy w src dst f \<longrightarrow> src \<noteq> dst) \<and>
    lookup w dst f \<noteq> Some Subdir \<and>
    trace w1 = trace w @ (if needs_copy w src dst f then copy_events v src dst lg f else [])"
proof (cases "f \<in> set dst_files")
  case False
  with s have n: "needs_copy w src dst f" "lookup w dst f = None" by (simp_all add: needs_copy_def)
  from False r have "do_copy v src dst lg f w = Return () w1"
    by (simp add: copy_step_def)
  from do_copy_Return[OF this l] n show ?thesis by auto
next
  case True
  with r obtain hs hd where
    h1: "hash_file src f w = Return hs w" and h2: "hash_file dst f w = Return hd w" and
    k: "(if hs \<noteq> hd then do_copy v src dst lg f w else Return () w) = Return () w1"
    by (auto simp: copy_step_def bind_Return_iff dest: hash_file_Return)
  from hash_file_Return[OF h1] hash_file_Return[OF h2] obtain c m t c' m' t' where
    e: "lookup w src f = Some (File c m t)" "hs = hexdigest (md5 c)"
       "lookup w dst f = Some (File c' m' t')" "hd = hexdigest (md5 c')"
    by blast
  have n: "needs_copy w src dst f = (hs \<noteq> hd)"
    using e by (simp add: needs_copy_def digest_of_def)
  show ?thesis
  proof (cases "hs \<noteq> hd")
    case True
    with k have "do_copy v src dst lg f w = Return () w1" by simp
    from do_copy_Return[OF this l] n True e show ?thesis by auto
  next
    case False
    with k have "w1 = w" by simp
    with n False e show ?thesis by simp
  qed
qed


lemma lookup_dirs_eq: "dirs w1 d = dirs w d \<Longrightarrow> lookup w1 d n = lookup w d n"
  by (simp add: lookup_def)

lemma copies_Cons:
  "copies v src dst lg w (f # fs) =
     (if needs_copy w src dst f then copy_events v src dst lg f else []) @ copies v src dst lg w fs"
  by (simp add: copies_def)

lemma copies_cong:
  assumes "\<forall>n\<in>set fs. needs_copy w1 src dst n = needs_copy w src dst n"
  shows "copies v src dst lg w1 fs = copies v src dst lg w fs"
  unfolding copies_def using assms by (intro arg_cong[where f=concat] map_cong) auto

lemma needs_copy_cong:
  assumes "lookup w1 src n = lookup w src n" "lookup w1 dst n = lookup w dst n"
  shows "needs_copy w1 src dst n = needs_copy w src dst n"
  using assms by (simp add: needs_copy_def)

lemma copy_loop_Return:
  assumes l: "fst (log_file_path lg) \<noteq> src" "fst (log_file_path lg) \<noteq> dst"
  shows "copy_loop v src dst lg dst_files files w = Return () w' \<Longrightarrow> distinct files \<Longrightarrow>
     (\<forall>f\<in>set files. (f \<in> set dst_files) = (lookup w dst f \<noteq> None)) \<Longrightarrow>
     (\<forall>n. n \<notin> set files \<longrightarrow> lookup w' dst n = lookup w dst n) \<and>
     (\<forall>n\<in>set files. \<exists>c m t. lookup w src n = Some (File c m t) \<and>
         lookup w dst n \<noteq> Some Subdir \<and>
         (if needs_copy w src dst n then \<exists>k. lookup w' dst n = Some (File c m (time_at w k))
          else lookup w' dst n = lookup w dst n)) \<and>
     (\<forall>d n. d \<noteq> dst \<and> (d, n) \<noteq> log_file_path lg \<longrightarrow> lookup w' d n = lookup w d n) \<and>
     trace w' = trace w @ copies v src dst lg w files"
proof (induction files arbitrary: w)
  case Nil
  then show ?case by (simp add: copies_def)
next
  case (Cons f fs)
  from Cons.prems(1) obtain w1 where
    st: "copy_step v src dst lg dst_files f w = Return () w1" and
    lp: "copy_loop v src dst lg dst_files fs w1 = Return () w'"
    by (auto simp: bind_Return_iff)
  from Cons.prems(3) have sf: "(f \<in> set dst_files) = (lookup w dst f \<noteq> None)" by simp
  note S = copy_step_Return[OF st l sf]
  from S obtain c m t where
    f1: "lookup w src f = Some (File c m t)"
    "if needs_copy w src dst f then \<exists>k. lookup w1 dst f = Some (File c m (time_at w k))
     else lookup w1 dst f = lookup w dst f"
    by blast
  from S have f0: "lookup w dst f \<noteq> Some Subdir" by blast
  from S have f2: "\<And>d n. (d, n) \<noteq> (dst, f) \<Longrightarrow> (d, n) \<noteq> log_file_path lg \<Longrightarrow>
      lookup w1 d n = lookup w d n"
    and f3: "trace w1 = trace w @ (if needs_copy w src dst f then copy_events v src dst lg f else [])"
    by blast+
  have src1: "lookup w1 src n = lookup w src n" for n
    using keep_copy_step[OF l(1), of v dst dst_files f w] st by (intro lookup_dirs_eq) simp
  have dst1: "lookup w1 dst n = lookup w dst n" if "n \<noteq> f" for n
    using f2[of dst n] that l(2) by auto
  have t1: "time_at w1 = time_at w"
    using ext_copy_step[of w v src dst lg dst_files f] st by (simp add: ext_def)
  have nf: "f \<notin> set fs" and dfs: "distinct fs" using Cons.prems(2) by auto
  have inv: "\<forall>g\<in>set fs. (g \<in> set dst_files) = (lookup w1 dst g \<noteq> None)"
  proof
    fix g assume g: "g \<in> set fs"
    then have "g \<noteq> f" using nf by auto
    then have "lookup w1 dst g = lookup w dst g" by (rule dst1)
    with Cons.prems(3) g show "(g \<in> set dst_files) = (lookup w1 dst g \<noteq> None)" by simp
  qed
  note IH = Cons.IH[OF lp dfs inv]
  have nc: "needs_copy w1 src dst n = needs_copy w src dst n" if "n \<in> set fs" for n
  proof -
    from that nf have "n \<noteq> f" by auto
    then show ?thesis by (intro needs_copy_cong src1 dst1)
  qed
  have A: "lookup w' dst n = lookup w dst n" if "n \<notin> set (f # fs)" for n
  proof -
    from that have "n \<noteq> f" "n \<notin> set fs" by auto
    with IH dst1[of n] show ?thesis by simp
  qed
  have Bf: "if needs_copy w src dst f then \<exists>k. lookup w' dst f = Some (File c m (time_at w k))
     else lookup w' dst f = lookup w dst f"
  proof -
    have "lookup w' dst f = lookup w1 dst f" using IH nf by blast
    with f1(2) show ?thesis by simp
  qed
  have Bn: "\<exists>c m t. lookup w src n = Some (File c m t) \<and>
         lookup w dst n \<noteq> Some Subdir \<and>
         (if needs_copy w src dst n then \<exists>k. lookup w' dst n = Some (File c m (time_at w k))
          else lookup w' dst n = lookup w dst n)" if "n \<in> set fs" for n
  proof -
    from IH that obtain c m t where
      "lookup w1 src n = Some (File c m t)" "lookup w1 dst n \<noteq> Some Subdir"
      "if needs_copy w1 src dst n then \<exists>k. lookup w' dst n = Some (File c m (time_at w1 k))
          else lookup w' dst n = lookup w1 dst n"
      by blast
    moreover have "n \<noteq> f" using that nf by auto
    ultimately show ?thesis
      using src1[of n] nc[OF that] dst1[of n] t1 by (cases "needs_copy w src dst n") auto
  qed
  have B: "\<forall>n\<in>set (f # fs). \<exists>c m t. lookup w src n = Some (File c m t) \<and>
         lookup w dst n \<noteq> Some Subdir \<and>
         (if needs_copy w src dst n then \<exists>k. lookup w' dst n = Some (File c m (time_at w k))
          else lookup w' dst n = lookup w dst n)"
    using f1(1) f0 Bf Bn by auto
  have C: "lookup w' d n = lookup w d n" if "d \<noteq> dst" "(d, n) \<noteq> log_file_path lg" for d n
  proof -
    from that have "(d, n) \<noteq> (dst, f)" by simp
    with that IH f2[of d n] show ?thesis by simp
  qed
  have D: "trace w' = trace w @ copies v src dst lg w (f # fs)"
    using IH f3 copies_cong[of fs w1 src dst w v lg] nc by (simp add: copies_Cons)
  show ?case using A B C D by blast
qed

lemma removals_Cons:
  "removals v dst lg sf (f # fs) =
     (if f \<notin> set sf then remove_events v dst lg f else []) @ removals v dst lg sf fs"
  by (simp add: removals_def)

lemma remove_step_Return:
  assumes r: "remove_step v dst lg src_files f w = Return () w1"
    and l: "fst (log_file_path lg) \<noteq> dst"
  shows "(\<forall>n. lookup w1 dst n = (if n = f \<and> f \<notin> set src_files then None else lookup w dst n)) \<and>
    (\<forall>d n. d \<noteq> dst \<and> (d, n) \<noteq> log_file_path lg \<longrightarrow> lookup w1 d n = lookup w d n) \<and>
    trace w1 = trace w @ (if f \<notin> set src_files then remove_events v dst lg f else [])"
proof (cases "f \<in> set src_files")
  case True
  with r show ?thesis by (simp add: remove_step_def)
next
  case False
  with r obtain wa wb where
    a: "say v (remove_message f dst) w = Return () wa" and
    b: "Logger_log lg (remove_message f (ldst lg)) wa = Return () wb" and
    c: "os_remove dst f wb = Return () w1"
    by (auto simp: remove_step_def log_remove_def bind_Return_iff)
  note A = say_Return_iff[OF a]
  note B = Logger_log_Return[OF b]
  note C = os_remove_Return[OF c]
  have d: "(dst, n) \<noteq> log_file_path lg" for n using l by auto
  have "lookup w1 dst n = (if n = f then None else lookup w dst n)" for n
    using C(2) B(2) d[of n] A by simp
  moreover have "lookup w1 d n = lookup w d n" if "d \<noteq> dst" "(d, n) \<noteq> log_file_path lg" for d n
    using that C(2) B(2) A by simp
  moreover have "trace w1 = trace w @ remove_events v dst lg f"
    using C(3) B(3) A by (simp add: remove_events_def say_events_def)
  ultimately show ?thesis using False by simp
qed

lemma remove_loop_Return:
  assumes l: "fst (log_file_path lg) \<noteq> dst"
  shows "remove_loop v dst lg src_files files w = Return () w' \<Longrightarrow>
     (\<forall>n. lookup w' dst n = (if n \<in> set files \<and> n \<notin> set src_files then None else lookup w dst n)) \<and>
     (\<forall>d n. d \<noteq> dst \<and> (d, n) \<noteq> log_file_path lg \<longrightarrow> lookup w' d n = lookup w d n) \<and>
     trace w' = trace w @ removals v dst lg src_files files"
proof (induction files arbitrary: w)
  case Nil
  then show ?case by (simp add: removals_def)
next
  case (Cons f fs)
  from Cons.prems obtain w1 where
    st: "remove_step v dst lg src_files f w = Return () w1" and
    lp: "remove_loop v dst lg src_files fs w1 = Return () w'"
    by (auto simp: bind_Return_iff)
  note S = remove_step_Return[OF st l]
  note IH = Cons.IH[OF lp]
  have A: "lookup w' dst n =
      (if n \<in> set (f # fs) \<and> n \<notin> set src_files then None else lookup w dst n)" for n
    using S IH by auto
  have B: "lookup w' d n = lookup w d n" if "d \<noteq> dst" "(d, n) \<noteq> log_file_path lg" for d n
    using that S IH by auto
  have C: "trace w' = trace w @ removals v dst lg src_files (f # fs)"
    using S IH by (simp add: removals_Cons)
  show ?case using A B C by blast
qed

subsection \<open>When a pass returns\<close>

definition appendable :: "Logger \<Rightarrow> world \<Rightarrow> bool" where
  "appendable lg w \<longleftrightarrow>
     dirs w (fst (log_file_path lg)) \<noteq> None \<and>
     lookup w (fst (log_file_path lg)) (snd (log_file_path lg)) \<noteq> Some Subdir"

lemma Logger_log_total: "appendable lg w \<Longrightarrow> returns (Logger_log lg msg w)"
  by (auto simp: appendable_def Logger_log_def lookup_def
      split: prod.splits option.splits entry.splits)

lemma app_bind:
  assumes "appendable lg w \<Longrightarrow> appendable lg (world_of m)"
    and "\<And>x w1. m = Return x w1 \<Longrightarrow> appendable lg w1 \<Longrightarrow> appendable lg (world_of (f x w1))"
    and "appendable lg w"
  shows "appendable lg (world_of (bind m f))"
  using assms by (cases m) auto

lemma app_say: "appendable lg w \<Longrightarrow> appendable lg (world_of (say v s w))"
  by (simp add: appendable_def)

lemma app_Logger_log: "appendable lg w \<Longrightarrow> appendable lg (world_of (Logger_log lg' msg w))"
  by (auto simp: appendable_def Logger_log_def lookup_store dirs_store
      split: prod.splits option.splits entry.splits)

lemma app_os_listdir: "appendable lg w \<Longrightarrow> appendable lg (world_of (os_listdir p w))"
  by (simp add: appendable_def)

lemma app_shutil_copy:
  "appendable lg w \<Longrightarrow> fst (log_file_path lg) \<noteq> dd \<Longrightarrow>
   appendable lg (world_of (shutil_copy sd n dd w))"
  by (auto simp: appendable_def shutil_copy_def Let_def lookup_store dirs_store
      split: option.splits entry.splits)

lemma app_os_remove:
  "appendable lg w \<Longrightarrow> fst (log_file_path lg) \<noteq> d \<Longrightarrow>
   appendable lg (world_of (os_remove d n w))"
  by (auto simp: appendable_def os_remove_def Let_def lookup_unlink dirs_unlink
      split: option.splits entry.splits)

lemma app_do_copy:
  assumes a: "appendable lg w" and l: "fst (log_file_path lg) \<noteq> dst"
  shows "appendable lg (world_of (do_copy v src dst lg f w))"
proof -
  obtain wa where wa: "say v (copy_message f src dst) w = Return () wa"
    using say_Return by blast
  have aa: "appendable lg wa" using app_say[OF a, of v "copy_message f src dst"] wa by simp
  show ?thesis
  proof (cases "Logger_log lg (copy_message f (lsrc lg) (ldst lg)) wa")
    case (Raise e wb)
    with app_Logger_log[OF aa, of lg "copy_message f (lsrc lg) (ldst lg)"] wa
    show ?thesis by (simp add: do_copy_def log_copy_def)
  next
    case (Return x wb)
    with app_Logger_log[OF aa, of lg "copy_message f (lsrc lg) (ldst lg)"]
    have "appendable lg wb" by simp
    from app_shutil_copy[OF this l, of src f] wa Return
    show ?thesis by (simp add: do_copy_def log_copy_def)
  qed
qed

lemma hash_file_world: "hash_file d n w = r \<Longrightarrow> world_of r = w"
  by auto

lemma app_copy_step:
  assumes a: "appendable lg w" and l: "fst (log_file_path lg) \<noteq> dst"
  shows "appendable lg (world_of (copy_step v src dst lg dst_files f w))"
proof (cases "f \<in> set dst_files")
  case False
  then show ?thesis using app_do_copy[OF a l] by (simp add: copy_step_def)
next
  case True
  show ?thesis
  proof (cases "hash_file src f w")
    case (Raise e w1)
    with hash_file_world[OF Raise] True a show ?thesis by (simp add: copy_step_def)
  next
    case r1: (Return hs w1)
    with hash_file_world[OF r1] have w1: "w1 = w" by simp
    show ?thesis
    proof (cases "hash_file dst f w")
      case (Raise e w2)
      with hash_file_world[OF Raise] True a r1 w1 show ?thesis by (simp add: copy_step_def)
    next
      case r2: (Return hd w2)
      with hash_file_world[OF r2] have w2: "w2 = w" by simp
      show ?thesis
        using True r1 r2 w1 w2 a app_do_copy[OF a l, of v src f]
        by (simp add: copy_step_def)
    qed
  qed
qed

lemma app_remove_step:
  assumes a: "appendable lg w" and l: "fst (log_file_path lg) \<noteq> dst"
  shows "appendable lg (world_of (remove_step v dst lg sf f w))"
proof (cases "f \<in> set sf")
  case True
  then show ?thesis using a by (simp add: remove_step_def)
next
  case False
  obtain wa where wa: "say v (remove_message f dst) w = Return () wa"
    using say_Return by blast
  have aa: "appendable lg wa" using app_say[OF a, of v "remove_message f dst"] wa by simp
  show ?thesis
  proof (cases "Logger_log lg (remove_message f (ldst lg)) wa")
    case (Raise e wb)
    with app_Logger_log[OF aa, of lg "remove_message f (ldst lg)"] wa False
    show ?thesis by (simp add: remove_step_def log_remove_def)
  next
    case (Return x wb)
    with app_Logger_log[OF aa, of lg "remove_message f (ldst lg)"]
    have "appendable lg wb" by simp
    from app_os_remove[OF this l, of f] wa Return False
    show ?thesis by (simp add: remove_step_def log_remove_def)
  qed
qed

lemma shutil_copy_total:
  "dirs w dd \<noteq> None \<Longrightarrow> lookup w sd n = Some (File c m t) \<Longrightarrow> sd \<noteq> dd \<Longrightarrow>
   lookup w dd n \<noteq> Some Subdir \<Longrightarrow> returns (shutil_copy sd n dd w)"
  by (auto simp: shutil_copy_def Let_def split: option.splits entry.splits)

lemma os_remove_total: "lookup w d n = Some (File c m t) \<Longrightarrow> returns (os_remove d n w)"
  by (simp add: os_remove_def Let_def)

lemma hash_file_total:
  "lookup w d n = Some (File c m t) \<Longrightarrow> hash_file d n w = Return (hexdigest (md5 c)) w"
  by (simp add: hash_file_def)

lemma do_copy_total:
  assumes a: "appendable lg w"
    and l: "fst (log_file_path lg) \<noteq> src" "fst (log_file_path lg) \<noteq> dst"
    and d: "dirs w dst \<noteq> None" "src \<noteq> dst"
    and f: "lookup w src f = Some (File c m t)" "lookup w dst f \<noteq> Some Subdir"
  shows "returns (do_copy v src dst lg f w)"
proof -
  obtain wa where wa: "say v (copy_message f src dst) w = Return () wa"
    using say_Return by blast
  note A = say_Return_iff[OF wa]
  have "appendable lg wa" using app_say[OF a, of v "copy_message f src dst"] wa by simp
  then obtain wb where wb: "Logger_log lg (copy_message f (lsrc lg) (ldst lg)) wa = Return () wb"
    using Logger_log_total[of lg wa] by (auto simp: returns_iff)
  note B = Logger_log_Return[OF wb]
  have ls: "(src, f) \<noteq> log_file_path lg" "(dst, f) \<noteq> log_file_path lg"
    using l by auto
  have "dirs wb dst \<noteq> None" using B(1) l(2) d(1) A by simp
  moreover have "lookup wb src f = Some (File c m t)" using B(2) ls(1) A f(1) by simp
  moreover have "lookup wb dst f \<noteq> Some Subdir" using B(2) ls(2) A f(2) by simp
  ultimately have "returns (shutil_copy src f dst wb)"
    using d(2) by (intro shutil_copy_total)
  with wa wb show ?thesis by (simp add: do_copy_def log_copy_def)
qed

lemma copy_step_total:
  assumes a: "appendable lg w"
    and l: "fst (log_file_path lg) \<noteq> src" "fst (log_file_path lg) \<noteq> dst"
    and d: "dirs w dst \<noteq> None"
    and f: "lookup w src f = Some (File c m t)" "lookup w dst f \<noteq> Some Subdir"
    and s: "(f \<in> set dst_files) = (lookup w dst f \<noteq> None)"
  shows "returns (copy_step v src dst lg dst_files f w)"
proof (cases "f \<in> set dst_files")
  case False
  with s f(1) have "src \<noteq> dst" by auto
  with False show ?thesis
    using do_copy_total[OF a l d _ f] by (simp add: copy_step_def)
next
  case True
  with s f(2) obtain c' m' t' where e: "lookup w dst f = Some (File c' m' t')"
    by (cases "lookup w dst f") (auto, case_tac a, auto)
  show ?thesis
  proof (cases "hexdigest (md5 c) \<noteq> hexdigest (md5 c')")
    case True
    with f(1) e have "src \<noteq> dst" by auto
    then show ?thesis
      using True \<open>f \<in> set dst_files\<close> do_copy_total[OF a l d _ f]
      by (simp add: copy_step_def hash_file_total[OF f(1)] hash_file_total[OF e])
  next
    case False
    then show ?thesis
      using \<open>f \<in> set dst_files\<close>
      by (simp add: copy_step_def hash_file_total[OF f(1)] hash_file_total[OF e])
  qed
qed

lemma copy_loop_total:
  assumes l: "fst (log_file_path lg) \<noteq> src" "fst (log_file_path lg) \<noteq> dst"
  shows "appendable lg w \<Longrightarrow> dirs w dst \<noteq> None \<Longrightarrow> distinct files \<Longrightarrow>
    (\<forall>f\<in>set files. (\<exists>c m t. lookup w src f = Some (File c m t)) \<and>
        lookup w dst f \<noteq> Some Subdir \<and> ((f \<in> set dst_files) = (lookup w dst f \<noteq> None))) \<Longrightarrow>
    returns (copy_loop v src dst lg dst_files files w)"
proof (induction files arbitrary: w)
  case Nil
  show ?case by simp
next
  case (Cons f fs)
  from Cons.prems(4) obtain c m t where
    f: "lookup w src f = Some (File c m t)" "lookup w dst f \<noteq> Some Subdir"
    "(f \<in> set dst_files) = (lookup w dst f \<noteq> None)"
    by auto
  from copy_step_total[OF Cons.prems(1) l Cons.prems(2) f]
  obtain w1 where st: "copy_step v src dst lg dst_files f w = Return () w1"
    by (auto simp: returns_iff)
  note S = copy_step_Return[OF st l f(3)]
  have a1: "appendable lg w1"
    using app_copy_step[OF Cons.prems(1) l(2), of v src dst_files f] st by simp
  have d1: "dirs w1 dst \<noteq> None"
    using ext_copy_step[of w v src dst lg dst_files f] st Cons.prems(2) by (simp add: ext_def)
  have nf: "f \<notin> set fs" and dfs: "distinct fs" using Cons.prems(3) by auto
  have src1: "lookup w1 src n = lookup w src n" for n
    using keep_copy_step[OF l(1), of v dst dst_files f w] st by (intro lookup_dirs_eq) simp
  have dst1: "lookup w1 dst n = lookup w dst n" if "n \<noteq> f" for n
  proof -
    from that l(2) have "(dst, n) \<noteq> (dst, f) \<and> (dst, n) \<noteq> log_file_path lg" by simp
    with S show ?thesis by blast
  qed
  have inv: "\<forall>g\<in>set fs. (\<exists>c m t. lookup w1 src g = Some (File c m t)) \<and>
        lookup w1 dst g \<noteq> Some Subdir \<and> ((g \<in> set dst_files) = (lookup w1 dst g \<noteq> None))"
  proof
    fix g assume g: "g \<in> set fs"
    then have "g \<noteq> f" using nf by auto
    then have "lookup w1 dst g = lookup w dst g" by (rule dst1)
    with Cons.prems(4) g src1[of g]
    show "(\<exists>c m t. lookup w1 src g = Some (File c m t)) \<and>
        lookup w1 dst g \<noteq> Some Subdir \<and> ((g \<in> set dst_files) = (lookup w1 dst g \<noteq> None))"
      by simp
  qed
  from Cons.IH[OF a1 d1 dfs inv] st show ?case by simp
qed

lemma remove_step_total:
  assumes a: "appendable lg w" and l: "fst (log_file_path lg) \<noteq> dst"
    and f: "f \<notin> set sf \<longrightarrow> (\<exists>c m t. lookup w dst f = Some (File c m t))"
  shows "returns (remove_step v dst lg sf f w)"
proof (cases "f \<in> set sf")
  case True
  then show ?thesis by (simp add: remove_step_def)
next
  case False
  with f obtain c m t where e: "lookup w dst f = Some (File c m t)" by auto
  obtain wa where wa: "say v (remove_message f dst) w = Return () wa"
    using say_Return by blast
  note A = say_Return_iff[OF wa]
  have "appendable lg wa" using app_say[OF a, of v "remove_message f dst"] wa by simp
  then obtain wb where wb: "Logger_log lg (remove_message f (ldst lg)) wa = Return () wb"
    using Logger_log_total[of lg wa] by (auto simp: returns_iff)
  note B = Logger_log_Return[OF wb]
  have "(dst, f) \<noteq> log_file_path lg" using l by auto
  then have "lookup wb dst f = Some (File c m t)" using B(2) A e by simp
  then have "returns (os_remove dst f wb)" by (rule os_remove_total)
  with False wa wb show ?thesis by (simp add: remove_step_def log_remove_def)
qed

lemma remove_loop_total:
  assumes l: "fst (log_file_path lg) \<noteq> dst"
  shows "appendable lg w \<Longrightarrow> distinct files \<Longrightarrow>
    (\<forall>f\<in>set files. f \<notin> set sf \<longrightarrow> (\<exists>c m t. lookup w dst f = Some (File c m t))) \<Longrightarrow>
    returns (remove_loop v dst lg sf files w)"
proof (induction files arbitrary: w)
  case Nil
  show ?case by simp
next
  case (Cons f fs)
  from Cons.prems(3) have f: "f \<notin> set sf \<longrightarrow> (\<exists>c m t. lookup w dst f = Some (File c m t))"
    by simp
  from remove_step_total[OF Cons.prems(1) l f]
  obtain w1 where st: "remove_step v dst lg sf f w = Return () w1"
    by (auto simp: returns_iff)
  note S = remove_step_Return[OF st l]
  have a1: "appendable lg w1"
    using app_remove_step[OF Cons.prems(1) l, of v sf f] st by simp
  have nf: "f \<notin> set fs" and dfs: "distinct fs" using Cons.prems(2) by auto
  have inv: "\<forall>g\<in>set fs. g \<notin> set sf \<longrightarrow> (\<exists>c m t. lookup w1 dst g = Some (File c m t))"
  proof (intro ballI impI)
    fix g assume g: "g \<in> set fs" "g \<notin> set sf"
    then have "g \<noteq> f" using nf by auto
    with S have "lookup w1 dst g = lookup w dst g" by simp
    with Cons.prems(3) g show "\<exists>c m t. lookup w1 dst g = Some (File c m t)" by simp
  qed
  from Cons.IH[OF a1 dfs inv] st show ?case by simp
qed

lemma lookup_dirs_fun: "dirs w1 = dirs w \<Longrightarrow> lookup w1 = lookup w"
  by (simp add: lookup_def fun_eq_iff)

lemma app_copy_loop:
  assumes "fst (log_file_path lg) \<noteq> dst"
  shows "appendable lg w \<Longrightarrow> appendable lg (world_of (copy_loop v src dst lg df files w))"
proof (induction files arbitrary: w)
  case Nil
  then show ?case by simp
next
  case (Cons f fs)
  show ?case
    using Cons.prems app_copy_step[OF _ assms, of w v src df f] Cons.IH
    by (cases "copy_step v src dst lg df f w") auto
qed

lemma app_remove_loop:
  assumes "fst (log_file_path lg) \<noteq> dst"
  shows "appendable lg w \<Longrightarrow> appendable lg (world_of (remove_loop v dst lg sf files w))"
proof (induction files arbitrary: w)
  case Nil
  then show ?case by simp
next
  case (Cons f fs)
  show ?case
    using Cons.prems app_remove_step[OF _ assms, of w v sf f] Cons.IH
    by (cases "remove_step v dst lg sf f w") auto
qed

lemma reconcile_Return:
  assumes r: "reconcile v src dst lg sf df wd = Return () w'"
    and l: "fst (log_file_path lg) \<noteq> src" "fst (log_file_path lg) \<noteq> dst"
    and ds: "distinct sf"
    and s: "\<forall>f\<in>set sf. (f \<in> set df) = (lookup wd dst f \<noteq> None)"
  shows "(\<forall>n. n \<notin> set sf \<longrightarrow> lookup w' dst n = (if n \<in> set df then None else lookup wd dst n)) \<and>
    (\<forall>n\<in>set sf. \<exists>c m t. lookup wd src n = Some (File c m t) \<and>
       lookup wd dst n \<noteq> Some Subdir \<and>
       (if needs_copy wd src dst n then \<exists>k. lookup w' dst n = Some (File c m (time_at wd k))
        else lookup w' dst n = lookup wd dst n)) \<and>
    (\<forall>d n. d \<noteq> dst \<and> (d, n) \<noteq> log_file_path lg \<longrightarrow> lookup w' d n = lookup wd d n) \<and>
    trace w' = trace wd @ copies v src dst lg wd sf @ removals v dst lg sf df @
      say_events v (end_message src dst) @ [Log (end_message (lsrc lg) (ldst lg))]"
proof -
  from r obtain we wf wg where
    c: "copy_loop v src dst lg df sf wd = Return () we" and
    m: "remove_loop v dst lg sf df we = Return () wf" and
    a: "say v (end_message src dst) wf = Return () wg" and
    e: "Logger_log lg (end_message (lsrc lg) (ldst lg)) wg = Return () w'"
    by (auto simp: reconcile_def log_sync_end_def bind_Return_iff)
  note C = copy_loop_Return[OF l c ds s]
  note M = remove_loop_Return[OF l(2) m]
  note A = say_Return_iff[OF a]
  note E = Logger_log_Return[OF e]
  have fin: "lookup w' d n = lookup wf d n" if "(d, n) \<noteq> log_file_path lg" for d n
    using that E(2) A by simp
  have find: "lookup w' dst n = lookup wf dst n" for n
    using fin[of dst n] l(2) by auto
  have P1: "lookup w' dst n = (if n \<in> set df then None else lookup wd dst n)" if "n \<notin> set sf" for n
    using that find[of n] M C by auto
  have P2: "\<exists>c m t. lookup wd src n = Some (File c m t) \<and>
       lookup wd dst n \<noteq> Some Subdir \<and>
       (if needs_copy wd src dst n then \<exists>k. lookup w' dst n = Some (File c m (time_at wd k))
        else lookup w' dst n = lookup wd dst n)" if "n \<in> set sf" for n
  proof -
    have eq: "lookup w' dst n = lookup we dst n" using find[of n] M that by auto
    from C that have "\<exists>c m t. lookup wd src n = Some (File c m t) \<and>
       lookup wd dst n \<noteq> Some Subdir \<and>
       (if needs_copy wd src dst n then \<exists>k. lookup we dst n = Some (File c m (time_at wd k))
        else lookup we dst n = lookup wd dst n)"
      by blast
    then show ?thesis unfolding eq .
  qed
  have P3: "lookup w' d n = lookup wd d n" if "d \<noteq> dst" "(d, n) \<noteq> log_file_path lg" for d n
    using that fin[of d n] M C by auto
  have P4: "trace w' = trace wd @ copies v src dst lg wd sf @ removals v dst lg sf df @
      say_events v (end_message src dst) @ [Log (end_message (lsrc lg) (ldst lg))]"
    using E(3) A M C by simp
  show ?thesis using P1 P2 P3 P4 by blast
qed

lemma reconcile_total:
  assumes a: "appendable lg wd"
    and l: "fst (log_file_path lg) \<noteq> src" "fst (log_file_path lg) \<noteq> dst"
    and d: "dirs wd dst \<noteq> None" "distinct sf" "distinct df"
    and s: "\<forall>f\<in>set sf. (\<exists>c m t. lookup wd src f = Some (File c m t)) \<and>
        lookup wd dst f \<noteq> Some Subdir \<and> ((f \<in> set df) = (lookup wd dst f \<noteq> None))"
    and t: "\<forall>f\<in>set df. \<exists>c m t. lookup wd dst f = Some (File c m t)"
  shows "returns (reconcile v src dst lg sf df wd)"
proof -
  from copy_loop_total[OF l a d(1,2) s]
  obtain we where c: "copy_loop v src dst lg df sf wd = Return () we"
    by (auto simp: returns_iff)
  have s': "\<forall>f\<in>set sf. (f \<in> set df) = (lookup wd dst f \<noteq> None)" using s by blast
  note C = copy_loop_Return[OF l c d(2) s']
  have ae: "appendable lg we"
    using app_copy_loop[OF l(2) a, of v src df sf] c by simp
  have "\<forall>f\<in>set df. f \<notin> set sf \<longrightarrow> (\<exists>c m t. lookup we dst f = Some (File c m t))"
    using C t by auto
  from remove_loop_total[OF l(2) ae d(3) this]
  obtain wf where m: "remove_loop v dst lg sf df we = Return () wf"
    by (auto simp: returns_iff)
  have af: "appendable lg wf"
    using app_remove_loop[OF l(2) ae, of v sf df] m by simp
  obtain wg where g: "say v (end_message src dst) wf = Return () wg"
    using say_Return by blast
  have "appendable lg wg" using app_say[OF af, of v "end_message src dst"] g by simp
  then have "returns (Logger_log lg (end_message (lsrc lg) (ldst lg)) wg)"
    by (rule Logger_log_total)
  with c m g show ?thesis by (simp add: reconcile_def log_sync_end_def)
qed

lemma sync_listing:
  assumes ls: "returns (log_sync_start lg (world_of (say v (start_message src dst) w)))"
    and d: "dirs w src = Some ses" "dirs w dst = Some des"
    and l: "fst (log_file_path lg) \<noteq> src" "fst (log_file_path lg) \<noteq> dst"
  shows "\<exists>wd. sync v src dst lg w = reconcile v src dst lg (map fst ses) (map fst des) wd \<and>
    dirs wd src = Some ses \<and> dirs wd dst = Some des \<and>
    (\<forall>d n. (d, n) \<noteq> log_file_path lg \<longrightarrow> lookup wd d n = lookup w d n) \<and>
    trace wd = trace w @ head_events v src dst lg \<and> time_at wd = time_at w \<and>
    (appendable lg w \<longrightarrow> appendable lg wd)"
proof -
  obtain wa where wa: "say v (start_message src dst) w = Return () wa"
    using say_Return by blast
  note A = say_Return_iff[OF wa]
  from ls wa obtain wb where wb: "Logger_log lg (start_message (lsrc lg) (ldst lg)) wa = Return () wb"
    by (auto simp: returns_iff log_sync_start_def)
  note B = Logger_log_Return[OF wb]
  have db: "dirs wb src = Some ses" "dirs wb dst = Some des"
    using B(1) l d A by auto
  let ?wc = "emit (Listdir src) wb"
  let ?wd = "emit (Listdir dst) ?wc"
  have l1: "os_listdir src wb = Return (map fst ses) ?wc"
    using db(1) by (simp add: os_listdir_def)
  have l2: "os_listdir dst ?wc = Return (map fst des) ?wd"
    using db(2) by (simp add: os_listdir_def)
  have 1: "sync v src dst lg w = reconcile v src dst lg (map fst ses) (map fst des) ?wd"
    using wa wb l1 l2 by (simp add: sync_def log_sync_start_def)
  have 2: "dirs ?wd src = Some ses" "dirs ?wd dst = Some des" using db by simp_all
  have 3: "lookup ?wd d n = lookup w d n" if "(d, n) \<noteq> log_file_path lg" for d n
    using that B(2) A by simp
  have 4: "trace ?wd = trace w @ head_events v src dst lg"
    using B(3) A by (simp add: head_events_def)
  have 5: "time_at ?wd = time_at w" using B(4) A by simp
  have 6: "appendable lg ?wd" if "appendable lg w"
    using app_Logger_log[OF app_say[OF that, of v "start_message src dst"],
        of lg "start_message (lsrc lg) (ldst lg)"] wa wb
    by (simp add: appendable_def)
  show ?thesis using 1 2 3 4 5 6 by blast
qed

definition regular :: "world \<Rightarrow> path \<Rightarrow> bool" where
  "regular w d =
     (case dirs w d of None \<Rightarrow> False | Some es \<Rightarrow> list_all (\<lambda>e. e \<noteq> Subdir) (map snd es))"

lemma regular_lookup: "regular w d \<Longrightarrow> lookup w d n \<noteq> Some Subdir"
  by (auto simp: regular_def lookup_def list_all_iff split: option.splits dest!: map_of_SomeD)

lemma entry_File: "e \<noteq> None \<Longrightarrow> e \<noteq> Some Subdir \<Longrightarrow> \<exists>c m t. e = Some (File c m t)"
  by (cases e) (auto, case_tac a, auto)

lemma lookup_Some_dirs: "dirs w d = Some es \<Longrightarrow> lookup w d n = map_of es n"
  by (simp add: lookup_def)

lemma listed_iff: "(n \<in> set (map fst es)) = (map_of es n \<noteq> None)"
  by (simp add: map_of_eq_None_iff)

definition listing :: "world \<Rightarrow> path \<Rightarrow> name list" where
  "listing w d = (case dirs w d of None \<Rightarrow> [] | Some es \<Rightarrow> map fst es)"

lemma names_listing: "names w d = set (listing w d)"
  by (simp add: names_def listing_def split: option.splits)


lemma sync_Return:
  assumes r: "sync v src dst lg w = Return () w'"
    and wf: "well_formed w"
    and l: "fst (log_file_path lg) \<noteq> src" "fst (log_file_path lg) \<noteq> dst"
  shows "dirs w src \<noteq> None" and "dirs w dst \<noteq> None"
    and "dirs w' src = dirs w src"
    and "\<And>n. n \<notin> names w src \<Longrightarrow> lookup w' dst n = None"
    and "\<And>n. n \<in> names w src \<Longrightarrow> \<exists>c m t. lookup w src n = Some (File c m t) \<and>
       lookup w dst n \<noteq> Some Subdir \<and>
       (if needs_copy w src dst n then \<exists>k. lookup w' dst n = Some (File c m (time_at w k))
        else lookup w' dst n = lookup w dst n)"
    and "\<And>d n. d \<noteq> dst \<Longrightarrow> (d, n) \<noteq> log_file_path lg \<Longrightarrow> lookup w' d n = lookup w d n"
    and "pass_events w (sync v src dst lg w) =
      head_events v src dst lg @ copies v src dst lg w (listing w src) @
      removals v dst lg (listing w src) (listing w dst) @
      say_events v (end_message src dst) @ [Log (end_message (lsrc lg) (ldst lg))]"
proof -
  from r have ret: "returns (sync v src dst lg w)" by simp
  with missing_directory[of w src dst v lg] obtain ses des where
    d: "dirs w src = Some ses" "dirs w dst = Some des"
    by (cases "dirs w src"; cases "dirs w dst") auto
  from r have ls: "returns (log_sync_start lg (world_of (say v (start_message src dst) w)))"
    by (auto simp: sync_def bind_Return_iff)
  from sync_listing[OF ls d l] obtain wd where
    wd: "sync v src dst lg w = reconcile v src dst lg (map fst ses) (map fst des) wd"
    "dirs wd src = Some ses" "dirs wd dst = Some des"
    "\<And>d n. (d, n) \<noteq> log_file_path lg \<Longrightarrow> lookup wd d n = lookup w d n"
    "trace wd = trace w @ head_events v src dst lg" "time_at wd = time_at w"
    by blast
  let ?sf = "map fst ses" and ?df = "map fst des"
  from wd(1) r have rr: "reconcile v src dst lg ?sf ?df wd = Return () w'" by simp
  have ds: "distinct ?sf" using wf d(1) by (auto simp: well_formed_def)
  have s: "\<forall>f\<in>set ?sf. (f \<in> set ?df) = (lookup wd dst f \<noteq> None)"
    using lookup_Some_dirs[OF wd(3)] listed_iff[of _ des] by simp
  note R = reconcile_Return[OF rr l ds s]
  have sl: "lookup wd src n = lookup w src n" "lookup wd dst n = lookup w dst n" for n
    using wd(4)[of src n] wd(4)[of dst n] l by auto
  have nc: "needs_copy wd src dst n = needs_copy w src dst n" for n
    by (intro needs_copy_cong sl)
  have nm: "names w src = set ?sf" using d(1) by (simp add: names_def)
  show "dirs w src \<noteq> None" "dirs w dst \<noteq> None" using d by simp_all
  show P1: "dirs w' src = dirs w src"
    using keep_sync[OF l(1), of v dst w] r by simp
  show P2: "lookup w' dst n = None" if "n \<notin> names w src" for n
  proof (cases "n \<in> set ?df")
    case True
    with that nm R show ?thesis by auto
  next
    case False
    then have "lookup w dst n = None"
      using lookup_Some_dirs[OF d(2), of n] listed_iff[of n des] by simp
    with that nm R False sl(2)[of n] show ?thesis by auto
  qed
  show P3: "\<exists>c m t. lookup w src n = Some (File c m t) \<and>
       lookup w dst n \<noteq> Some Subdir \<and>
       (if needs_copy w src dst n then \<exists>k. lookup w' dst n = Some (File c m (time_at w k))
        else lookup w' dst n = lookup w dst n)" if "n \<in> names w src" for n
  proof -
    from that nm R obtain c m t where
      "lookup wd src n = Some (File c m t)" "lookup wd dst n \<noteq> Some Subdir"
      "if needs_copy wd src dst n then \<exists>k. lookup w' dst n = Some (File c m (time_at wd k))
        else lookup w' dst n = lookup wd dst n"
      by blast
    then show ?thesis using sl[of n] nc[of n] wd(6) by auto
  qed
  show P4: "lookup w' d n = lookup w d n" if "d \<noteq> dst" "(d, n) \<noteq> log_file_path lg" for d n
    using that R wd(4)[of d n] by auto
  have "copies v src dst lg wd ?sf = copies v src dst lg w ?sf"
    by (rule copies_cong) (simp add: nc)
  with R wd(5) have "trace w' = trace w @ head_events v src dst lg @ copies v src dst lg w ?sf @
      removals v dst lg ?sf ?df @
      say_events v (end_message src dst) @ [Log (end_message (lsrc lg) (ldst lg))]"
    by simp
  then show "pass_events w (sync v src dst lg w) =
      head_events v src dst lg @ copies v src dst lg w (listing w src) @
      removals v dst lg (listing w src) (listing w dst) @
      say_events v (end_message src dst) @ [Log (end_message (lsrc lg) (ldst lg))]"
    using r d by (simp add: pass_events_def listing_def)
qed

lemma sync_total:
  assumes wf: "well_formed w" and a: "appendable lg w"
    and l: "fst (log_file_path lg) \<noteq> src" "fst (log_file_path lg) \<noteq> dst"
    and e: "dirs w src \<noteq> None" "dirs w dst \<noteq> None"
    and g: "\<forall>n. lookup w src n \<noteq> Some Subdir" "\<forall>n. lookup w dst n \<noteq> Some Subdir"
  shows "returns (sync v src dst lg w)"
proof -
  from e obtain ses des where d: "dirs w src = Some ses" "dirs w dst = Some des"
    by auto
  have "appendable lg (world_of (say v (start_message src dst) w))"
    by (rule app_say[OF a])
  then have ls: "returns (log_sync_start lg (world_of (say v (start_message src dst) w)))"
    unfolding log_sync_start_def by (rule Logger_log_total)
  from sync_listing[OF ls d l] a obtain wd where
    wd: "sync v src dst lg w = reconcile v src dst lg (map fst ses) (map fst des) wd"
    "dirs wd src = Some ses" "dirs wd dst = Some des"
    "\<And>d n. (d, n) \<noteq> log_file_path lg \<Longrightarrow> lookup wd d n = lookup w d n"
    "appendable lg wd"
    by blast
  let ?sf = "map fst ses" and ?df = "map fst des"
  have sl: "lookup wd src n = lookup w src n" "lookup wd dst n = lookup w dst n" for n
    using wd(4)[of src n] wd(4)[of dst n] l by auto
  have ds: "distinct ?sf" "distinct ?df" using wf d by (auto simp: well_formed_def)
  have s: "\<forall>f\<in>set ?sf. (\<exists>c m t. lookup wd src f = Some (File c m t)) \<and>
        lookup wd dst f \<noteq> Some Subdir \<and> ((f \<in> set ?df) = (lookup wd dst f \<noteq> None))"
  proof
    fix f assume "f \<in> set ?sf"
    then have "lookup w src f \<noteq> None"
      using lookup_Some_dirs[OF d(1), of f] listed_iff[of f ses] by simp
    then have "\<exists>c m t. lookup wd src f = Some (File c m t)"
      using g(1) sl(1)[of f] by (simp add: entry_File)
    moreover have "lookup wd dst f \<noteq> Some Subdir"
      using g(2) sl(2)[of f] by simp
    moreover have "(f \<in> set ?df) = (lookup wd dst f \<noteq> None)"
      using lookup_Some_dirs[OF wd(3), of f] listed_iff[of f des] by simp
    ultimately show "(\<exists>c m t. lookup wd src f = Some (File c m t)) \<and>
        lookup wd dst f \<noteq> Some Subdir \<and> ((f \<in> set ?df) = (lookup wd dst f \<noteq> None))"
      by blast
  qed
  have t: "\<forall>f\<in>set ?df. \<exists>c m t. lookup wd dst f = Some (File c m t)"
  proof
    fix f assume "f \<in> set ?df"
    then have "lookup wd dst f \<noteq> None"
      using lookup_Some_dirs[OF wd(3), of f] listed_iff[of f des] by simp
    then show "\<exists>c m t. lookup wd dst f = Some (File c m t)"
      using g(2) sl(2)[of f] by (simp add: entry_File)
  qed
  have "dirs wd dst \<noteq> None" using wd(3) by simp
  from reconcile_total[OF wd(5) l this ds s t] wd(1) show ?thesis by simp
qed

definition contents :: "world \<Rightarrow> path \<Rightarrow> name \<Rightarrow> string" where
  "contents w d n = (case lookup w d n of Some (File c m t) \<Rightarrow> c | _ \<Rightarrow> [])"

lemma returns_world_of: "returns r \<Longrightarrow> r = Return () (world_of r)"
  by (cases r) auto

lemma Copy_in_copies:
  "Copy s n d \<in> set (copies v src dst lg w fs) \<longleftrightarrow>
     s = src \<and> d = dst \<and> n \<in> set fs \<and> needs_copy w src dst n"
  by (induction fs) (auto simp: copies_Cons copies_def copy_events_def)

lemma Copy_notin_removals: "Copy s n d \<notin> set (removals v dst lg sf fs)"
  by (induction fs) (auto simp: removals_Cons removals_def remove_events_def)

lemma Copy_notin_head: "Copy s n d \<notin> set (head_events v src dst lg)"
  by (simp add: head_events_def say_events_def)

lemma Copy_notin_say: "Copy s n d \<notin> set (say_events v m)"
  by (simp add: say_events_def)





lemma Logger_log_cell:
  assumes "Logger_log lg msg w = Return x w1"
  shows "dirs w (fst (log_file_path lg)) \<noteq> None \<and>
    (\<exists>m t. lookup w1 (fst (log_file_path lg)) (snd (log_file_path lg)) =
       Some (File ((case lookup w (fst (log_file_path lg)) (snd (log_file_path lg)) of
                      Some (File c m t) \<Rightarrow> c | _ \<Rightarrow> []) @ log_line w msg) m t))"
proof -
  obtain d n where p: "log_file_path lg = (d, n)" by (cases "log_file_path lg")
  from assms p obtain es where es: "dirs w d = Some es"
    by (auto simp: Logger_log_def split: option.splits)
  have lw: "lookup w d n = map_of es n" by (simp add: lookup_def es)
  have de: "dirs (emit (Log msg) w) d \<noteq> None" by (simp add: es)
  show ?thesis
  proof (cases "map_of es n")
    case None
    with assms p es have "w1 = tock (store d n (File (log_line w msg) (create_mode w)
        (time_at w (tick w))) (emit (Log msg) w))"
      by (simp add: Logger_log_def)
    with None lw de p es show ?thesis by (simp add: lookup_store)
  next
    case (Some e)
    show ?thesis
    proof (cases e)
      case Subdir
      with Some assms p es show ?thesis by (simp add: Logger_log_def)
    next
      case (File c m t)
      with Some assms p es have "w1 = tock (store d n (File (c @ log_line w msg) m
          (time_at w (tick w))) (emit (Log msg) w))"
        by (simp add: Logger_log_def)
      with Some File lw de p es show ?thesis by (simp add: lookup_store)
    qed
  qed
qed



lemma Logger_log_contents:
  assumes "Logger_log lg msg w = Return x w1"
  shows "contents w1 (fst (log_file_path lg)) (snd (log_file_path lg)) =
     contents w (fst (log_file_path lg)) (snd (log_file_path lg)) @
     strftime_at w (tick w) ''%Y-%m-%d %H:%M:%S'' @ '': '' @ msg @ [CHR 0x0A]"
  using Logger_log_cell[OF assms]
  by (auto simp: contents_def log_line_def)

lemma needs_copy_files:
  assumes "lookup w src n = Some (File c m t)" "lookup w dst n = Some (File c' m' t')"
  shows "needs_copy w src dst n = (hexdigest (md5 c) \<noteq> hexdigest (md5 c'))"
  using assms by (simp add: needs_copy_def digest_of_def)

text \<open>What a pass that returns has done, with the log file outside both directories.\<close>

lemma pass_result:
  assumes r: "sync v src dst lg w = Return () w'"
    and wf: "well_formed w"
    and l: "fst (log_file_path lg) \<noteq> src" "fst (log_file_path lg) \<noteq> dst"
  shows "names w' src = names w src" and "names w' dst = names w src"
    and "\<And>n. n \<in> names w src \<Longrightarrow> \<exists>c m t. lookup w src n = Some (File c m t) \<and>
       lookup w' src n = Some (File c m t) \<and> lookup w dst n \<noteq> Some Subdir \<and>
       (if needs_copy w src dst n then \<exists>k. lookup w' dst n = Some (File c m (time_at w k))
        else lookup w' dst n = lookup w dst n)"
proof -
  note k = sync_Return(3)[OF r wf l]
  note n0 = sync_Return(4)[OF r wf l]
  note n1 = sync_Return(5)[OF r wf l]
  show s: "names w' src = names w src" using k by (simp add: names_def)
  have ls: "lookup w' src n = lookup w src n" for n using k by (rule lookup_dirs_eq)
  show "names w' dst = names w src"
  proof (rule set_eqI)
    fix n
    show "(n \<in> names w' dst) = (n \<in> names w src)"
    proof (cases "n \<in> names w src")
      case False
      with n0[of n] show ?thesis by (simp add: names_lookup)
    next
      case True
      from n1[OF True] obtain c m t where
        e: "lookup w src n = Some (File c m t)"
        "if needs_copy w src dst n then \<exists>k. lookup w' dst n = Some (File c m (time_at w k))
        else lookup w' dst n = lookup w dst n"
        by blast
      have "lookup w' dst n \<noteq> None"
      proof (cases "needs_copy w src dst n")
        case True
        with e(2) show ?thesis by auto
      next
        case False
        with e(2) show ?thesis by (auto simp: needs_copy_def)
      qed
      with True show ?thesis by (simp add: names_lookup)
    qed
  qed
  show "\<exists>c m t. lookup w src n = Some (File c m t) \<and>
       lookup w' src n = Some (File c m t) \<and> lookup w dst n \<noteq> Some Subdir \<and>
       (if needs_copy w src dst n then \<exists>k. lookup w' dst n = Some (File c m (time_at w k))
        else lookup w' dst n = lookup w dst n)" if "n \<in> names w src" for n
  proof -
    from n1[OF that] obtain c m t where
      e: "lookup w src n = Some (File c m t)" "lookup w dst n \<noteq> Some Subdir"
      "if needs_copy w src dst n then \<exists>k. lookup w' dst n = Some (File c m (time_at w k))
        else lookup w' dst n = lookup w dst n"
      by blast
    from e(1) ls[of n] have "lookup w' src n = Some (File c m t)" by simp
    with e show ?thesis by blast
  qed
qed




lemma shared_copy:
  assumes r: "sync v src dst lg w = Return () w'"
    and wf: "well_formed w"
    and l: "fst (log_file_path lg) \<noteq> src" "fst (log_file_path lg) \<noteq> dst"
    and n: "n \<in> names w src" "n \<in> names w dst"
  shows "\<exists>c m t c' m' t'. lookup w src n = Some (File c m t) \<and>
    lookup w dst n = Some (File c' m' t') \<and>
    (Copy src n dst \<in> set (pass_events w (sync v src dst lg w))) =
      (hexdigest (md5 c) \<noteq> hexdigest (md5 c'))"
proof -
  from pass_result(3)[OF r wf l n(1)] obtain c m t where
    e: "lookup w src n = Some (File c m t)" "lookup w dst n \<noteq> Some Subdir"
    by blast
  from n(2) have "lookup w dst n \<noteq> None" by (simp add: names_lookup)
  with e(2) obtain c' m' t' where e': "lookup w dst n = Some (File c' m' t')"
    using entry_File by blast
  note ev = sync_Return(7)[OF r wf l]
  have "n \<in> set (listing w src)" using n(1) by (simp add: names_listing)
  then have "(Copy src n dst \<in> set (pass_events w (sync v src dst lg w))) =
      needs_copy w src dst n"
    unfolding ev
    by (simp add: Copy_in_copies Copy_notin_removals Copy_notin_head Copy_notin_say)
  with e(1) e' needs_copy_files[OF e(1) e'] show ?thesis by simp
qed


subsection \<open>Runs that differ in what they print\<close>

definition quiet :: "world \<Rightarrow> world" where
  "quiet w = w\<lparr>stdout := [], trace := filter (\<lambda>e. \<not> is_Print e) (trace w)\<rparr>"

fun quiet_result :: "'a result \<Rightarrow> 'a result" where
  "quiet_result (Return x w) = Return x (quiet w)"
| "quiet_result (Raise e w) = Raise e (quiet w)"


















lemma sim_Return: "quiet w1 = quiet w2 \<Longrightarrow> quiet_result (Return x w1) = quiet_result (Return x w2)"
  by simp








subsection \<open>The standard output without the verbose flag\<close>















subsection \<open>The log file\<close>

definition log_text :: "Logger \<Rightarrow> world \<Rightarrow> string" where
  "log_text lg w = contents w (fst (log_file_path lg)) (snd (log_file_path lg))"

definition stamped :: "world \<Rightarrow> nat \<Rightarrow> string \<Rightarrow> string" where
  "stamped w k message = strftime_at w k ''%Y-%m-%d %H:%M:%S'' @ '': '' @ message @ [CHR 0x0A]"

text \<open>
  The text that a sequence of calls appends to the log file when it starts at the
  \<open>k\<close>-th reading of the clock: one line for each message logged. A logging and a copy
  that return read the clock once each.
\<close>

fun log_lines :: "world \<Rightarrow> nat \<Rightarrow> event list \<Rightarrow> string" where
  "log_lines w k [] = []"
| "log_lines w k (Log m # es) = stamped w k m @ log_lines w (Suc k) es"
| "log_lines w k (Copy sd n dd # es) = log_lines w (Suc k) es"
| "log_lines w k (Print s # es) = log_lines w k es"
| "log_lines w k (Listdir p # es) = log_lines w k es"
| "log_lines w k (Remove d n # es) = log_lines w k es"

fun ticks :: "event list \<Rightarrow> nat" where
  "ticks [] = 0"
| "ticks (Log m # es) = Suc (ticks es)"
| "ticks (Copy sd n dd # es) = Suc (ticks es)"
| "ticks (Print s # es) = ticks es"
| "ticks (Listdir p # es) = ticks es"
| "ticks (Remove d n # es) = ticks es"

lemma ticks_append: "ticks (xs @ ys) = ticks xs + ticks ys"
  by (induction xs rule: ticks.induct) simp_all

lemma log_lines_append:
  "log_lines w k (xs @ ys) = log_lines w k xs @ log_lines w (k + ticks xs) ys"
  by (induction w k xs rule: log_lines.induct) simp_all

lemma log_lines_cong:
  "strftime_at w1 = strftime_at w \<Longrightarrow> log_lines w1 k es = log_lines w k es"
  by (induction w k es rule: log_lines.induct) (simp_all add: stamped_def)

definition logs :: "Logger \<Rightarrow> world \<Rightarrow> 'a result \<Rightarrow> bool" where
  "logs lg w r \<longleftrightarrow>
     (\<exists>evs. trace (world_of r) = trace w @ evs \<and>
        log_text lg (world_of r) = log_text lg w @ log_lines w (tick w) evs \<and>
        strftime_at (world_of r) = strftime_at w \<and>
        (returns r \<longrightarrow> tick (world_of r) = tick w + ticks evs))"

lemma logs_bind:
  assumes m: "logs lg w m" and f: "\<And>x w1. m = Return x w1 \<Longrightarrow> logs lg w1 (f x w1)"
  shows "logs lg w (bind m f)"
proof (cases m)
  case (Raise e w1)
  with m show ?thesis by (simp add: logs_def)
next
  case (Return x w1)
  from m Return obtain e1 where a: "trace w1 = trace w @ e1"
    "log_text lg w1 = log_text lg w @ log_lines w (tick w) e1"
    "strftime_at w1 = strftime_at w" "tick w1 = tick w + ticks e1"
    by (auto simp: logs_def)
  from f[OF Return] obtain e2 where b: "trace (world_of (f x w1)) = trace w1 @ e2"
    "log_text lg (world_of (f x w1)) = log_text lg w1 @ log_lines w1 (tick w1) e2"
    "strftime_at (world_of (f x w1)) = strftime_at w1"
    "returns (f x w1) \<longrightarrow> tick (world_of (f x w1)) = tick w1 + ticks e2"
    by (auto simp: logs_def)
  have "trace (world_of (f x w1)) = trace w @ (e1 @ e2) \<and>
        log_text lg (world_of (f x w1)) = log_text lg w @ log_lines w (tick w) (e1 @ e2) \<and>
        strftime_at (world_of (f x w1)) = strftime_at w \<and>
        (returns (f x w1) \<longrightarrow> tick (world_of (f x w1)) = tick w + ticks (e1 @ e2))"
    using a b by (simp add: log_lines_append ticks_append log_lines_cong[OF a(3)])
  then show ?thesis unfolding logs_def using Return by (intro exI[of _ "e1 @ e2"]) simp
qed

lemma logs_say: "logs lg w (say v s w)"
  unfolding logs_def
  by (rule exI[of _ "say_events v s"])
    (simp add: say_def print_def say_events_def log_text_def contents_def lookup_def)

lemma logs_os_listdir: "logs lg w (os_listdir p w)"
  unfolding logs_def
  by (rule exI[of _ "[Listdir p]"])
    (simp add: os_listdir_def log_text_def contents_def split: option.splits)

lemma logs_hash_file: "logs lg w (hash_file d n w)"
  unfolding logs_def
  by (rule exI[of _ "[]"]) (simp add: hash_file_def split: option.splits entry.splits)

lemma Logger_log_Raise: "Logger_log lg msg w = Raise e w1 \<Longrightarrow> w1 = w"
  by (auto simp: Logger_log_def split: prod.splits option.splits entry.splits)

lemma Logger_log_clock:
  "Logger_log lg msg w = Return x w1 \<Longrightarrow> tick w1 = Suc (tick w) \<and> strftime_at w1 = strftime_at w"
  by (auto simp: Logger_log_def split: prod.splits option.splits entry.splits)

lemma Logger_log_text:
  assumes "Logger_log lg msg w = Return x w1"
  shows "log_text lg w1 = log_text lg w @ stamped w (tick w) msg"
  using Logger_log_contents[OF assms] by (simp add: log_text_def stamped_def)

lemma logs_Logger_log: "logs lg w (Logger_log lg msg w)"
proof (cases "Logger_log lg msg w")
  case (Raise e w1)
  with Logger_log_Raise[OF Raise] show ?thesis
    unfolding logs_def by (intro exI[of _ "[]"]) simp
next
  case (Return x w1)
  from Logger_log_text[OF Return] Logger_log_clock[OF Return] Logger_log_Return(3)[OF Return]
  show ?thesis unfolding logs_def using Return by (intro exI[of _ "[Log msg]"]) simp
qed

lemma shutil_copy_Raise:
  "shutil_copy sd n dd w = Raise e w1 \<Longrightarrow> w1 = emit (Copy sd n dd) w"
  by (auto simp: shutil_copy_def Let_def split: option.splits entry.splits if_splits)

lemma shutil_copy_clock:
  "shutil_copy sd n dd w = Return x w1 \<Longrightarrow> tick w1 = Suc (tick w) \<and> strftime_at w1 = strftime_at w"
  by (auto simp: shutil_copy_def Let_def split: option.splits entry.splits if_splits)

lemma logs_shutil_copy:
  assumes "fst (log_file_path lg) \<noteq> dd"
  shows "logs lg w (shutil_copy sd n dd w)"
proof (cases "shutil_copy sd n dd w")
  case (Raise e w1)
  with shutil_copy_Raise[OF Raise] show ?thesis
    unfolding logs_def
    by (intro exI[of _ "[Copy sd n dd]"]) (simp add: log_text_def contents_def)
next
  case (Return x w1)
  have "(fst (log_file_path lg), snd (log_file_path lg)) \<noteq> (dd, n)" using assms by simp
  with shutil_copy_Return(3)[OF Return]
  have "lookup w1 (fst (log_file_path lg)) (snd (log_file_path lg)) =
      lookup w (fst (log_file_path lg)) (snd (log_file_path lg))" by blast
  then have "log_text lg w1 = log_text lg w" by (simp add: log_text_def contents_def)
  with shutil_copy_clock[OF Return] shutil_copy_Return(4)[OF Return]
  show ?thesis unfolding logs_def using Return by (intro exI[of _ "[Copy sd n dd]"]) simp
qed

lemma os_remove_Raise: "os_remove d n w = Raise e w1 \<Longrightarrow> w1 = emit (Remove d n) w"
  by (auto simp: os_remove_def Let_def split: option.splits entry.splits)

lemma os_remove_clock:
  "os_remove d n w = Return x w1 \<Longrightarrow> tick w1 = tick w \<and> strftime_at w1 = strftime_at w"
  by (auto simp: os_remove_def Let_def split: option.splits entry.splits)

lemma logs_os_remove:
  assumes "fst (log_file_path lg) \<noteq> d"
  shows "logs lg w (os_remove d n w)"
proof (cases "os_remove d n w")
  case (Raise e w1)
  with os_remove_Raise[OF Raise] show ?thesis
    unfolding logs_def
    by (intro exI[of _ "[Remove d n]"]) (simp add: log_text_def contents_def)
next
  case (Return x w1)
  from os_remove_Return(2)[OF Return]
  have "lookup w1 (fst (log_file_path lg)) (snd (log_file_path lg)) =
      lookup w (fst (log_file_path lg)) (snd (log_file_path lg))" by (simp add: assms)
  then have "log_text lg w1 = log_text lg w" by (simp add: log_text_def contents_def)
  with os_remove_clock[OF Return] os_remove_Return(3)[OF Return]
  show ?thesis unfolding logs_def using Return by (intro exI[of _ "[Remove d n]"]) simp
qed

lemma logs_Return: "logs lg w (Return x w)"
  unfolding logs_def by (intro exI[of _ "[]"]) simp

lemma logs_do_copy:
  "fst (log_file_path lg) \<noteq> dst \<Longrightarrow> logs lg w (do_copy v src dst lg f w)"
  unfolding do_copy_def log_copy_def
  by (intro logs_bind logs_say logs_Logger_log logs_shutil_copy)

lemma logs_copy_step:
  assumes "fst (log_file_path lg) \<noteq> dst"
  shows "logs lg w (copy_step v src dst lg df f w)"
proof (cases "f \<in> set df")
  case False
  then show ?thesis by (simp add: copy_step_def logs_do_copy[OF assms])
next
  case True
  have "logs lg w (bind (hash_file src f w) (\<lambda>src_hash w.
        bind (hash_file dst f w) (\<lambda>dst_hash w.
        if src_hash \<noteq> dst_hash then do_copy v src dst lg f w else Return () w)))"
    by (intro logs_bind logs_hash_file) (simp add: logs_do_copy[OF assms] logs_Return)
  with True show ?thesis by (simp add: copy_step_def)
qed

lemma logs_copy_loop:
  assumes "fst (log_file_path lg) \<noteq> dst"
  shows "logs lg w (copy_loop v src dst lg df fs w)"
proof (induction fs arbitrary: w)
  case Nil
  show ?case by (simp add: logs_Return)
next
  case (Cons f fs)
  show ?case by (simp, rule logs_bind[OF logs_copy_step[OF assms]]) (rule Cons)
qed

lemma logs_remove_step:
  assumes "fst (log_file_path lg) \<noteq> dst"
  shows "logs lg w (remove_step v dst lg sf f w)"
proof (cases "f \<in> set sf")
  case True
  then show ?thesis by (simp add: remove_step_def logs_Return)
next
  case False
  have "logs lg w (bind (say v (remove_message f dst) w) (\<lambda>_ w.
        bind (log_remove lg f w) (\<lambda>_ w. os_remove dst f w)))"
    unfolding log_remove_def
    by (intro logs_bind logs_say logs_Logger_log logs_os_remove assms)
  with False show ?thesis by (simp add: remove_step_def)
qed

lemma logs_remove_loop:
  assumes "fst (log_file_path lg) \<noteq> dst"
  shows "logs lg w (remove_loop v dst lg sf fs w)"
proof (induction fs arbitrary: w)
  case Nil
  show ?case by (simp add: logs_Return)
next
  case (Cons f fs)
  show ?case by (simp, rule logs_bind[OF logs_remove_step[OF assms]]) (rule Cons)
qed

lemma logs_reconcile:
  "fst (log_file_path lg) \<noteq> dst \<Longrightarrow> logs lg w (reconcile v src dst lg sf df w)"
  unfolding reconcile_def log_sync_end_def
  by (intro logs_bind logs_copy_loop logs_remove_loop logs_say logs_Logger_log)

lemma logs_sync:
  "fst (log_file_path lg) \<noteq> dst \<Longrightarrow> logs lg w (sync v src dst lg w)"
  unfolding sync_def log_sync_start_def
  by (intro logs_bind logs_say logs_Logger_log logs_os_listdir logs_reconcile)

lemma sync_log_text:
  assumes "fst (log_file_path lg) \<noteq> dst"
  shows "log_text lg (world_of (sync v src dst lg w)) =
     log_text lg w @ log_lines w (tick w) (pass_events w (sync v src dst lg w))"
  using logs_sync[OF assms, of w v src] by (auto simp: logs_def pass_events_def)

lemma bind_say: "bind (say v s u) F = F () (world_of (say v s u))"
  by (cases v) (simp_all add: say_def print_def)

lemma say_world:
  "dirs (world_of (say v s u)) = dirs u" "tick (world_of (say v s u)) = tick u"
  "strftime_at (world_of (say v s u)) = strftime_at u"
  "log_text lg (world_of (say v s u)) = log_text lg u"
  "pass_events u (say v s u) = say_events v s"
  "trace (world_of (say v s u)) = trace u @ say_events v s"
  by (simp_all add: say_def print_def log_text_def contents_def lookup_def pass_events_def
      say_events_def)

lemma log_text_emit [simp]: "log_text lg (emit ev w) = log_text lg w"
  by (simp add: log_text_def contents_def)

lemma Logger_log_event:
  "pass_events u (Logger_log lg m u) = (if returns (Logger_log lg m u) then [Log m] else [])"
proof (cases "Logger_log lg m u")
  case (Return x u')
  with Logger_log_Return(3)[OF Return] show ?thesis by (simp add: pass_events_def)
next
  case (Raise e u')
  with Logger_log_Raise[OF Raise] show ?thesis by (simp add: pass_events_def)
qed

lemma logged_then:
  assumes "Logger_log lg m (world_of (say v s u)) = Return () wb"
  shows "bind (say v s u) (\<lambda>_ w. bind (Logger_log lg m w) (\<lambda>_ w. act w)) = act wb"
    and "log_text lg wb = log_text lg u @ stamped u (tick u) m"
proof -
  show "bind (say v s u) (\<lambda>_ w. bind (Logger_log lg m w) (\<lambda>_ w. act w)) = act wb"
    by (simp add: bind_say assms)
  from Logger_log_text[OF assms] show "log_text lg wb = log_text lg u @ stamped u (tick u) m"
    by (simp add: say_world stamped_def)
qed

lemma unlogged_then:
  assumes "\<not> returns (Logger_log lg m (world_of (say v s u)))"
  shows "pass_events u (bind (say v s u) (\<lambda>_ w. bind (Logger_log lg m w) (\<lambda>_ w. act w))) =
     say_events v s"
proof -
  let ?wa = "world_of (say v s u)"
  from assms obtain e w1 where r: "Logger_log lg m ?wa = Raise e w1"
    by (cases "Logger_log lg m ?wa") auto
  from Logger_log_Raise[OF r] r
  have "bind (say v s u) (\<lambda>_ w. bind (Logger_log lg m w) (\<lambda>_ w. act w)) = Raise e ?wa"
    by (simp add: bind_say)
  then show ?thesis by (simp add: pass_events_def say_world)
qed

lemma copy_site:
  assumes "log_copy lg f (world_of (say v (copy_message f src dst) u)) = Return () wb"
  shows "do_copy v src dst lg f u = shutil_copy src f dst wb"
    and "log_text lg wb = log_text lg u @ stamped u (tick u) (copy_message f (lsrc lg) (ldst lg))"
    and "\<not> returns (shutil_copy src f dst wb) \<Longrightarrow>
       log_text lg (world_of (do_copy v src dst lg f u)) = log_text lg wb"
proof -
  note a = assms[unfolded log_copy_def]
  show d: "do_copy v src dst lg f u = shutil_copy src f dst wb"
    unfolding do_copy_def log_copy_def by (rule logged_then(1)[OF a])
  show "log_text lg wb = log_text lg u @ stamped u (tick u) (copy_message f (lsrc lg) (ldst lg))"
    by (rule logged_then(2)[OF a])
  assume "\<not> returns (shutil_copy src f dst wb)"
  then obtain e w1 where "shutil_copy src f dst wb = Raise e w1"
    by (cases "shutil_copy src f dst wb") auto
  with shutil_copy_Raise[OF this] d
  show "log_text lg (world_of (do_copy v src dst lg f u)) = log_text lg wb" by simp
qed

lemma copy_unlogged:
  assumes "\<not> returns (log_copy lg f (world_of (say v (copy_message f src dst) u)))"
  shows "filter is_Copy (pass_events u (do_copy v src dst lg f u)) = []"
  unfolding do_copy_def log_copy_def
  using unlogged_then[OF assms[unfolded log_copy_def], where act = "shutil_copy src f dst"]
  by (simp add: say_events_def)

lemma remove_site:
  assumes "log_remove lg f (world_of (say v (remove_message f dst) u)) = Return () wb"
    and n: "f \<notin> set sf"
  shows "remove_step v dst lg sf f u = os_remove dst f wb"
    and "log_text lg wb = log_text lg u @ stamped u (tick u) (remove_message f (ldst lg))"
    and "\<not> returns (os_remove dst f wb) \<Longrightarrow>
       log_text lg (world_of (remove_step v dst lg sf f u)) = log_text lg wb"
proof -
  note a = assms(1)[unfolded log_remove_def]
  show d: "remove_step v dst lg sf f u = os_remove dst f wb"
    unfolding remove_step_def log_remove_def using n logged_then(1)[OF a] by simp
  show "log_text lg wb = log_text lg u @ stamped u (tick u) (remove_message f (ldst lg))"
    by (rule logged_then(2)[OF a])
  assume "\<not> returns (os_remove dst f wb)"
  then obtain e w1 where "os_remove dst f wb = Raise e w1"
    by (cases "os_remove dst f wb") auto
  with os_remove_Raise[OF this] d
  show "log_text lg (world_of (remove_step v dst lg sf f u)) = log_text lg wb" by simp
qed

lemma remove_unlogged:
  assumes "\<not> returns (log_remove lg f (world_of (say v (remove_message f dst) u)))"
  shows "filter is_Remove (pass_events u (remove_step v dst lg sf f u)) = []"
proof (cases "f \<in> set sf")
  case True
  then show ?thesis by (simp add: remove_step_def pass_events_def)
next
  case False
  then show ?thesis
    unfolding remove_step_def log_remove_def
    using unlogged_then[OF assms[unfolded log_remove_def], where act = "os_remove dst f"]
    by (simp add: say_events_def)
qed

lemma start_site:
  assumes "log_sync_start lg (world_of (say v (start_message src dst) w)) = Return () wb"
  shows "log_text lg wb = log_text lg w @ stamped w (tick w) (start_message (lsrc lg) (ldst lg))"
    and "sync v src dst lg w =
       bind (os_listdir src wb) (\<lambda>src_files w.
       bind (os_listdir dst w) (\<lambda>dst_files w.
       reconcile v src dst lg src_files dst_files w))"
    and "dirs w src = None \<or> dirs w dst = None \<Longrightarrow>
       log_text lg (world_of (sync v src dst lg w)) = log_text lg wb"
proof -
  note a = assms[unfolded log_sync_start_def]
  show "log_text lg wb = log_text lg w @ stamped w (tick w) (start_message (lsrc lg) (ldst lg))"
    by (rule logged_then(2)[OF a])
  show s: "sync v src dst lg w =
       bind (os_listdir src wb) (\<lambda>src_files w.
       bind (os_listdir dst w) (\<lambda>dst_files w.
       reconcile v src dst lg src_files dst_files w))"
    unfolding sync_def log_sync_start_def by (rule logged_then(1)[OF a])
  assume m: "dirs w src = None \<or> dirs w dst = None"
  have "ext (world_of (say v (start_message src dst) w)) wb"
    using ext_Logger_log[of "world_of (say v (start_message src dst) w)" lg
        "start_message (lsrc lg) (ldst lg)"] a by simp
  then have e: "(dirs wb d = None) = (dirs w d = None)" for d
    by (simp add: ext_def say_world)
  show "log_text lg (world_of (sync v src dst lg w)) = log_text lg wb"
  proof (cases "dirs wb src")
    case None
    then show ?thesis unfolding s by (simp add: os_listdir_def)
  next
    case (Some es)
    with m e[of src] e[of dst] have "dirs wb dst = None" by auto
    with Some show ?thesis unfolding s by (simp add: os_listdir_def)
  qed
qed

lemma start_unlogged:
  assumes "\<not> returns (log_sync_start lg (world_of (say v (start_message src dst) w)))"
  shows "pass_events w (sync v src dst lg w) = say_events v (start_message src dst)"
  unfolding sync_def log_sync_start_def
  by (rule unlogged_then[OF assms[unfolded log_sync_start_def]])

lemma log_lines_has:
  "Log m \<in> set evs \<Longrightarrow> \<exists>pre post k. log_lines w k0 evs = pre @ stamped w k m @ post"
proof (induction w k0 evs rule: log_lines.induct)
  case (2 w k m' es)
  show ?case
  proof (cases "m' = m")
    case True
    have "log_lines w k (Log m' # es) = [] @ stamped w k m @ log_lines w (Suc k) es"
      using True by simp
    then show ?thesis by blast
  next
    case False
    with 2 obtain pre post j where "log_lines w (Suc k) es = pre @ stamped w j m @ post"
      by auto
    then have "log_lines w k (Log m' # es) = (stamped w k m' @ pre) @ stamped w j m @ post"
      by simp
    then show ?thesis by blast
  qed
qed auto

lemma announced_copy:
  "log_first lg p evs \<Longrightarrow> Copy sd f dd \<in> set evs \<Longrightarrow>
     p = Some (Log (copy_message f (lsrc lg) (ldst lg))) \<or>
     Log (copy_message f (lsrc lg) (ldst lg)) \<in> set evs"
proof (induction evs arbitrary: p)
  case Nil
  then show ?case by simp
next
  case (Cons e es)
  show ?case
  proof (cases "e = Copy sd f dd")
    case True
    with Cons.prems(1) show ?thesis by (simp add: announces_def)
  next
    case False
    with Cons.prems have "log_first lg (Some e) es" "Copy sd f dd \<in> set es" by simp_all
    from Cons.IH[OF this] show ?thesis by auto
  qed
qed

lemma announced_remove:
  "log_first lg p evs \<Longrightarrow> Remove d f \<in> set evs \<Longrightarrow>
     p = Some (Log (remove_message f (ldst lg))) \<or>
     Log (remove_message f (ldst lg)) \<in> set evs"
proof (induction evs arbitrary: p)
  case Nil
  then show ?case by simp
next
  case (Cons e es)
  show ?case
  proof (cases "e = Remove d f")
    case True
    with Cons.prems(1) show ?thesis by (simp add: announces_def)
  next
    case False
    with Cons.prems have "log_first lg (Some e) es" "Remove d f \<in> set es" by simp_all
    from Cons.IH[OF this] show ?thesis by auto
  qed
qed

lemma attempted_copy_line:
  assumes "fst (log_file_path lg) \<noteq> dst"
    and "Copy sd f dd \<in> set (pass_events w (sync v src dst lg w))"
  shows "\<exists>pre post k. log_text lg (world_of (sync v src dst lg w)) =
     pre @ stamped w k (copy_message f (lsrc lg) (ldst lg)) @ post"
proof -
  from announced_copy[OF sync_log_first assms(2)]
  have "Log (copy_message f (lsrc lg) (ldst lg)) \<in> set (pass_events w (sync v src dst lg w))"
    by simp
  from log_lines_has[OF this, of w "tick w"] obtain pre post k where
    "log_lines w (tick w) (pass_events w (sync v src dst lg w)) =
       pre @ stamped w k (copy_message f (lsrc lg) (ldst lg)) @ post" by blast
  then have "log_text lg (world_of (sync v src dst lg w)) =
     (log_text lg w @ pre) @ stamped w k (copy_message f (lsrc lg) (ldst lg)) @ post"
    by (simp add: sync_log_text[OF assms(1)])
  then show ?thesis by blast
qed

lemma attempted_remove_line:
  assumes "fst (log_file_path lg) \<noteq> dst"
    and "Remove d f \<in> set (pass_events w (sync v src dst lg w))"
  shows "\<exists>pre post k. log_text lg (world_of (sync v src dst lg w)) =
     pre @ stamped w k (remove_message f (ldst lg)) @ post"
proof -
  from announced_remove[OF sync_log_first assms(2)]
  have "Log (remove_message f (ldst lg)) \<in> set (pass_events w (sync v src dst lg w))"
    by simp
  from log_lines_has[OF this, of w "tick w"] obtain pre post k where
    "log_lines w (tick w) (pass_events w (sync v src dst lg w)) =
       pre @ stamped w k (remove_message f (ldst lg)) @ post" by blast
  then have "log_text lg (world_of (sync v src dst lg w)) =
     (log_text lg w @ pre) @ stamped w k (remove_message f (ldst lg)) @ post"
    by (simp add: sync_log_text[OF assms(1)])
  then show ?thesis by blast
qed

subsection \<open>Small worlds\<close>

definition bare_world :: world where
  "bare_world =
     \<lparr>dirs = (\<lambda>p. if p = ''src'' then Some [] else if p = ''dst'' then Some [] else None),
      stdout = [], tick = 0,
      strftime_at = (\<lambda>k fmt. ''2024-01-01 00:00:00''),
      time_at = (\<lambda>k. 100 + k),
      create_mode = 420,
      trace = []\<rparr>"

definition inner_logger :: Logger where
  "inner_logger = \<lparr>log_file_path = (''dst'', ''sync.log''), lsrc = ''src'', ldst = ''dst''\<rparr>"

definition source_logger :: Logger where
  "source_logger = \<lparr>log_file_path = (''src'', ''sync.log''), lsrc = ''src'', ldst = ''dst''\<rparr>"

lemmas eval_defs = sync_def reconcile_def say_def print_def log_sync_start_def log_sync_end_def
  log_copy_def log_remove_def Logger_log_def os_listdir_def copy_step_def do_copy_def
  remove_step_def hash_file_def shutil_copy_def os_remove_def store_def unlink_def emit_def
  tock_def lookup_def names_def log_line_def pass_events_def Let_def
  start_message_def end_message_def copy_message_def remove_message_def

lemma inner_first:
  "returns (sync False ''src'' ''dst'' inner_logger bare_world) \<and>
   names (world_of (sync False ''src'' ''dst'' inner_logger bare_world)) ''dst'' = {''sync.log''} \<and>
   names (world_of (sync False ''src'' ''dst'' inner_logger bare_world)) ''src'' = {}"
  by (simp add: eval_defs bare_world_def inner_logger_def)

lemma inner_second:
  "Remove ''dst'' ''sync.log'' \<in> set (pass_events
      (world_of (sync False ''src'' ''dst'' inner_logger bare_world))
      (sync False ''src'' ''dst'' inner_logger
        (world_of (sync False ''src'' ''dst'' inner_logger bare_world))))"
  by (simp add: eval_defs bare_world_def inner_logger_def)

lemma source_log:
  "lookup bare_world ''src'' ''sync.log'' = None \<and>
   lookup (world_of (sync False ''src'' ''dst'' source_logger bare_world)) ''src'' ''sync.log'' \<noteq> None"
  by (simp add: eval_defs bare_world_def source_logger_def)

subsection \<open>Two files with one fingerprint\<close>






lemma digest_lower: "hexdigest (md5 ''world'') = ''7d793037a0760186574b0282f2f435e7''"
  by code_simp

lemma digest_upper: "hexdigest (md5 ''WORLD'') = ''5289492cf082446ca4a6eec9f72f1ec3''"
  by code_simp

section \<open>The claims\<close>

definition demo_logger :: Logger where
  "demo_logger = \<lparr>log_file_path = (''logs'', ''sync.log''), lsrc = ''src'', ldst = ''dst''\<rparr>"

definition demo_world :: world where
  "demo_world =
     \<lparr>dirs = (\<lambda>p. if p = ''src'' then
                   Some [(''a.txt'', File ''hello'' 420 10), (''b.txt'', File ''world'' 420 11)]
                 else if p = ''dst'' then
                   Some [(''b.txt'', File ''WORLD'' 420 12), (''c.txt'', File ''stale'' 420 13)]
                 else if p = ''logs'' then Some []
                 else None),
      stdout = [], tick = 0,
      strftime_at = (\<lambda>k fmt. ''2024-01-01 00:00:00''),
      time_at = (\<lambda>k. 100 + k),
      create_mode = 420,
      trace = []\<rparr>"

definition missing_world :: world where
  "missing_world = demo_world\<lparr>dirs := (dirs demo_world)(''dst'' := None)\<rparr>"



lemma demo_well_formed: "well_formed demo_world"
  by (auto simp: well_formed_def demo_world_def split: if_splits)

lemma demo_outside:
  "fst (log_file_path demo_logger) \<noteq> ''src''" "fst (log_file_path demo_logger) \<noteq> ''dst''"
  by (simp_all add: demo_logger_def)

lemma demo_appendable: "appendable demo_logger demo_world"
  by (simp add: appendable_def demo_logger_def demo_world_def lookup_def)

lemma demo_regular: "regular demo_world ''src''" "regular demo_world ''dst''"
  by (simp_all add: regular_def demo_world_def)

lemma demo_names:
  "names demo_world ''src'' = {''a.txt'', ''b.txt''}"
  "names demo_world ''dst'' = {''b.txt'', ''c.txt''}"
  by (simp_all add: names_def demo_world_def)

lemma demo_lookup:
  "lookup demo_world ''src'' ''a.txt'' = Some (File ''hello'' 420 10)"
  "lookup demo_world ''src'' ''b.txt'' = Some (File ''world'' 420 11)"
  "lookup demo_world ''dst'' ''a.txt'' = None"
  "lookup demo_world ''dst'' ''b.txt'' = Some (File ''WORLD'' 420 12)"
  by (simp_all add: lookup_def demo_world_def)

lemma demo_returns: "returns (sync v ''src'' ''dst'' demo_logger demo_world)"
  by (rule sync_total[OF demo_well_formed demo_appendable demo_outside])
    (simp_all add: regular_lookup demo_regular, simp_all add: demo_world_def)

lemma demo_Return:
  "sync v ''src'' ''dst'' demo_logger demo_world =
     Return () (world_of (sync v ''src'' ''dst'' demo_logger demo_world))"
  using demo_returns by (rule returns_world_of)






definition stuck_world :: world where
  "stuck_world =
     \<lparr>dirs = (\<lambda>p. if p = ''src'' then Some [(''sub'', Subdir)]
                 else if p = ''dst'' then Some []
                 else if p = ''logs'' then Some []
                 else None),
      stdout = [], tick = 0,
      strftime_at = (\<lambda>k fmt. ''2024-01-01 00:00:00''),
      time_at = (\<lambda>k. 100 + k),
      create_mode = 420,
      trace = []\<rparr>"







text \<open>
  C3. For a name of the source listing that is in the destination listing, with a
  regular file on both sides, the body of the first loop runs the three lines that
  print, log and copy the file when the MD5 fingerprints of the two contents differ,
  and does nothing otherwise: with identical contents it does nothing. For a whole pass
  that returns, with the log file in neither directory, the copy of a name present on
  both sides is among the calls of the pass if and only if the fingerprints of the two
  files, as they were before the pass, differ.
\<close>

theorem update_rule:
  "(file \<in> set dst_files \<and> lookup u src file = Some (File a ma ta) \<and>
      lookup u dst file = Some (File b mb tb) \<longrightarrow>
      copy_step v src dst lg dst_files file u =
        (if hexdigest (md5 a) \<noteq> hexdigest (md5 b) then do_copy v src dst lg file u
         else Return () u) \<and>
      (a = b \<longrightarrow> copy_step v src dst lg dst_files file u = Return () u)) \<and>
   (sync v src dst lg w = Return () w' \<and> well_formed w \<and>
      fst (log_file_path lg) \<noteq> src \<and> fst (log_file_path lg) \<noteq> dst \<and>
      n \<in> names w src \<and> n \<in> names w dst \<longrightarrow>
      (\<exists>c m t c' m' t'. lookup w src n = Some (File c m t) \<and>
         lookup w dst n = Some (File c' m' t') \<and>
         (Copy src n dst \<in> set (pass_events w (sync v src dst lg w))) =
           (hexdigest (md5 c) \<noteq> hexdigest (md5 c'))))"
proof (intro conjI impI)
  assume "file \<in> set dst_files \<and> lookup u src file = Some (File a ma ta) \<and>
      lookup u dst file = Some (File b mb tb)"
  then show "copy_step v src dst lg dst_files file u =
        (if hexdigest (md5 a) \<noteq> hexdigest (md5 b) then do_copy v src dst lg file u
         else Return () u)"
    by (simp add: copy_step_def hash_file_def)
  then show "copy_step v src dst lg dst_files file u = Return () u" if "a = b"
    using that by simp
next
  assume h: "sync v src dst lg w = Return () w' \<and> well_formed w \<and>
      fst (log_file_path lg) \<noteq> src \<and> fst (log_file_path lg) \<noteq> dst \<and>
      n \<in> names w src \<and> n \<in> names w dst"
  show "\<exists>c m t c' m' t'. lookup w src n = Some (File c m t) \<and>
         lookup w dst n = Some (File c' m' t') \<and>
         (Copy src n dst \<in> set (pass_events w (sync v src dst lg w))) =
           (hexdigest (md5 c) \<noteq> hexdigest (md5 c'))"
    by (rule shared_copy[of v src dst lg w w' n]) (simp_all add: h)
qed

theorem update_rule_witness:
  "copy_step False ''src'' ''dst'' demo_logger [''b.txt'', ''c.txt''] ''b.txt'' demo_world =
     do_copy False ''src'' ''dst'' demo_logger ''b.txt'' demo_world \<and>
   Copy ''src'' ''b.txt'' ''dst'' \<in>
     set (pass_events demo_world (sync False ''src'' ''dst'' demo_logger demo_world))"
proof -
  note T = update_rule[where ?file = "''b.txt''" and dst_files = "[''b.txt'', ''c.txt'']"
      and u = demo_world and src = "''src''" and dst = "''dst''" and a = "''world''"
      and ma = 420 and ta = 11 and b = "''WORLD''" and mb = 420 and tb = 12
      and v = False and lg = demo_logger and w = demo_world
      and w' = "world_of (sync False ''src'' ''dst'' demo_logger demo_world)"
      and n = "''b.txt''"]
  have d: "hexdigest (md5 ''world'') \<noteq> hexdigest (md5 ''WORLD'')"
    by (simp add: digest_lower digest_upper)
  from T d demo_Return[of False] demo_well_formed demo_outside
  show ?thesis by (simp add: demo_lookup demo_names)
qed

text \<open>
  C4. In every pass, whatever its outcome, the calls it makes split into a first part
  with no removal and a second part with no copy: every copy is attempted before any
  removal.
\<close>

theorem operation_order:
  "\<exists>xs ys. pass_events w (sync v src dst lg w) = xs @ ys \<and>
     filter is_Remove xs = [] \<and> filter is_Copy ys = []"
  by (rule sync_copies_first)

theorem operation_order_witness:
  "\<exists>xs ys. pass_events demo_world (sync True ''src'' ''dst'' demo_logger demo_world) = xs @ ys \<and>
     filter is_Remove xs = [] \<and> filter is_Copy ys = []"
  by (rule operation_order)

text \<open>
  C5. When the source or the destination cannot be listed, the pass raises, it has
  attempted no copy and no removal, no file but the log file has changed, and, once the
  start line is logged, the error raised is the directory-access error of the first
  directory that cannot be listed.
\<close>

theorem directory_access_error:
  assumes "dirs w src = None \<or> dirs w dst = None"
  shows "\<not> returns (sync v src dst lg w) \<and>
    filter is_Copy (pass_events w (sync v src dst lg w)) = [] \<and>
    filter is_Remove (pass_events w (sync v src dst lg w)) = [] \<and>
    (returns (log_sync_start lg (world_of (say v (start_message src dst) w))) \<longrightarrow>
       error_of (sync v src dst lg w) =
         Some (DirectoryAccessError (if dirs w src = None then src else dst))) \<and>
    (\<forall>d n. (d, n) \<noteq> log_file_path lg \<longrightarrow>
       lookup (world_of (sync v src dst lg w)) d n = lookup w d n)"
  using assms by (rule missing_directory)

theorem directory_access_error_witness:
  "dirs missing_world ''dst'' = None \<and>
   \<not> returns (sync True ''src'' ''dst'' demo_logger missing_world) \<and>
   filter is_Copy (pass_events missing_world (sync True ''src'' ''dst'' demo_logger missing_world)) = [] \<and>
   filter is_Remove (pass_events missing_world (sync True ''src'' ''dst'' demo_logger missing_world)) = [] \<and>
   error_of (sync True ''src'' ''dst'' demo_logger missing_world) = Some (DirectoryAccessError ''dst'') \<and>
   lookup (world_of (sync True ''src'' ''dst'' demo_logger missing_world)) ''src'' ''a.txt'' =
     Some (File ''hello'' 420 10)"
proof -
  have h: "dirs missing_world ''src'' = None \<or> dirs missing_world ''dst'' = None"
    by (simp add: missing_world_def)
  have s: "dirs missing_world ''src'' \<noteq> None" "dirs missing_world ''dst'' = None"
    by (simp_all add: missing_world_def demo_world_def)
  have r: "returns (log_sync_start demo_logger
      (world_of (say True (start_message ''src'' ''dst'') missing_world)))"
    by (simp add: log_sync_start_def Logger_log_def say_def print_def missing_world_def
        demo_world_def demo_logger_def)
  have a: "(''src'', ''a.txt'') \<noteq> log_file_path demo_logger"
    by (simp add: demo_logger_def)
  have b: "lookup missing_world ''src'' ''a.txt'' = Some (File ''hello'' 420 10)"
    by (simp add: lookup_def missing_world_def demo_world_def)
  from directory_access_error[OF h, of True demo_logger] r s a b
  show ?thesis by simp
qed












text \<open>
  C10. In every pass, whatever its outcome, each copy attempted comes directly after
  the logging of its own copy message, each removal directly after the logging of its
  own removal message, and the first listing directly after the logging of the start
  message. A logging is in the history of calls exactly when \<^verbatim>\<open>Logger.log\<close> has returned,
  and then the log file holds what it held, followed by the line of the message. The
  listings, the copy and the removal are run on the world that the logging of their
  message has left, in which the log file ends with that line; and when the listing, the
  copy or the removal fails, the log file is left as it was then, ending with the line
  of the action that failed. With the log file not in the destination, after a pass,
  whatever its outcome, the log file holds what it held before, followed by one line for
  each message logged, in order; so the line of every copy and of every removal that
  was attempted is in it.
\<close>

theorem log_before_action:
  "log_first lg None (pass_events w (sync v src dst lg w)) \<and>
   (\<forall>m u. pass_events u (Logger_log lg m u) =
        (if returns (Logger_log lg m u) then [Log m] else []) \<and>
      (returns (Logger_log lg m u) \<longrightarrow>
         log_text lg (world_of (Logger_log lg m u)) = log_text lg u @ stamped u (tick u) m)) \<and>
   (\<forall>wb. log_sync_start lg (world_of (say v (start_message src dst) w)) = Return () wb \<longrightarrow>
      sync v src dst lg w =
        bind (os_listdir src wb) (\<lambda>src_files w.
        bind (os_listdir dst w) (\<lambda>dst_files w.
        reconcile v src dst lg src_files dst_files w)) \<and>
      log_text lg wb = log_text lg w @ stamped w (tick w) (start_message (lsrc lg) (ldst lg)) \<and>
      (dirs w src = None \<or> dirs w dst = None \<longrightarrow>
         log_text lg (world_of (sync v src dst lg w)) = log_text lg wb)) \<and>
   (\<forall>f u wb. log_copy lg f (world_of (say v (copy_message f src dst) u)) = Return () wb \<longrightarrow>
      do_copy v src dst lg f u = shutil_copy src f dst wb \<and>
      log_text lg wb = log_text lg u @ stamped u (tick u) (copy_message f (lsrc lg) (ldst lg)) \<and>
      (\<not> returns (shutil_copy src f dst wb) \<longrightarrow>
         log_text lg (world_of (do_copy v src dst lg f u)) = log_text lg wb)) \<and>
   (\<forall>f u wb src_files.
      f \<notin> set src_files \<and>
      log_remove lg f (world_of (say v (remove_message f dst) u)) = Return () wb \<longrightarrow>
      remove_step v dst lg src_files f u = os_remove dst f wb \<and>
      log_text lg wb = log_text lg u @ stamped u (tick u) (remove_message f (ldst lg)) \<and>
      (\<not> returns (os_remove dst f wb) \<longrightarrow>
         log_text lg (world_of (remove_step v dst lg src_files f u)) = log_text lg wb)) \<and>
   (fst (log_file_path lg) \<noteq> dst \<longrightarrow>
      log_text lg (world_of (sync v src dst lg w)) =
        log_text lg w @ log_lines w (tick w) (pass_events w (sync v src dst lg w)) \<and>
      (\<forall>sd f dd. Copy sd f dd \<in> set (pass_events w (sync v src dst lg w)) \<longrightarrow>
         (\<exists>pre post k. log_text lg (world_of (sync v src dst lg w)) =
            pre @ stamped w k (copy_message f (lsrc lg) (ldst lg)) @ post)) \<and>
      (\<forall>d f. Remove d f \<in> set (pass_events w (sync v src dst lg w)) \<longrightarrow>
         (\<exists>pre post k. log_text lg (world_of (sync v src dst lg w)) =
            pre @ stamped w k (remove_message f (ldst lg)) @ post)))"
proof (intro conjI allI impI)
  show "log_first lg None (pass_events w (sync v src dst lg w))"
    by (rule sync_log_first)
next
  fix m u
  show "pass_events u (Logger_log lg m u) =
        (if returns (Logger_log lg m u) then [Log m] else [])"
    by (rule Logger_log_event)
  assume "returns (Logger_log lg m u)"
  then have "Logger_log lg m u = Return () (world_of (Logger_log lg m u))"
    by (rule returns_world_of)
  then show "log_text lg (world_of (Logger_log lg m u)) = log_text lg u @ stamped u (tick u) m"
    by (rule Logger_log_text)
next
  fix wb
  assume a: "log_sync_start lg (world_of (say v (start_message src dst) w)) = Return () wb"
  show "sync v src dst lg w =
        bind (os_listdir src wb) (\<lambda>src_files w.
        bind (os_listdir dst w) (\<lambda>dst_files w.
        reconcile v src dst lg src_files dst_files w))"
    by (rule start_site(2)[OF a])
  show "log_text lg wb = log_text lg w @ stamped w (tick w) (start_message (lsrc lg) (ldst lg))"
    by (rule start_site(1)[OF a])
  assume "dirs w src = None \<or> dirs w dst = None"
  then show "log_text lg (world_of (sync v src dst lg w)) = log_text lg wb"
    by (rule start_site(3)[OF a])
next
  fix f u wb
  assume a: "log_copy lg f (world_of (say v (copy_message f src dst) u)) = Return () wb"
  show "do_copy v src dst lg f u = shutil_copy src f dst wb"
    by (rule copy_site(1)[OF a])
  show "log_text lg wb = log_text lg u @ stamped u (tick u) (copy_message f (lsrc lg) (ldst lg))"
    by (rule copy_site(2)[OF a])
  assume "\<not> returns (shutil_copy src f dst wb)"
  then show "log_text lg (world_of (do_copy v src dst lg f u)) = log_text lg wb"
    by (rule copy_site(3)[OF a])
next
  fix f u wb src_files
  assume h: "f \<notin> set src_files \<and>
      log_remove lg f (world_of (say v (remove_message f dst) u)) = Return () wb"
  then have a: "log_remove lg f (world_of (say v (remove_message f dst) u)) = Return () wb"
    and n: "f \<notin> set src_files" by simp_all
  show "remove_step v dst lg src_files f u = os_remove dst f wb"
    by (rule remove_site(1)[OF a n])
  show "log_text lg wb = log_text lg u @ stamped u (tick u) (remove_message f (ldst lg))"
    by (rule remove_site(2)[OF a n])
  assume "\<not> returns (os_remove dst f wb)"
  then show "log_text lg (world_of (remove_step v dst lg src_files f u)) = log_text lg wb"
    by (rule remove_site(3)[OF a n])
next
  assume l: "fst (log_file_path lg) \<noteq> dst"
  show "log_text lg (world_of (sync v src dst lg w)) =
        log_text lg w @ log_lines w (tick w) (pass_events w (sync v src dst lg w))"
    by (rule sync_log_text[OF l])
  fix sd f dd
  assume "Copy sd f dd \<in> set (pass_events w (sync v src dst lg w))"
  then show "\<exists>pre post k. log_text lg (world_of (sync v src dst lg w)) =
            pre @ stamped w k (copy_message f (lsrc lg) (ldst lg)) @ post"
    by (rule attempted_copy_line[OF l])
next
  fix d f
  assume l: "fst (log_file_path lg) \<noteq> dst"
    and "Remove d f \<in> set (pass_events w (sync v src dst lg w))"
  then show "\<exists>pre post k. log_text lg (world_of (sync v src dst lg w)) =
            pre @ stamped w k (remove_message f (ldst lg)) @ post"
    by (rule attempted_remove_line)
qed

theorem log_before_action_witness:
  "log_first demo_logger None
     (pass_events stuck_world (sync False ''src'' ''dst'' demo_logger stuck_world)) \<and>
   error_of (sync False ''src'' ''dst'' demo_logger stuck_world) =
     Some (IsADirectoryError ''src'' ''sub'') \<and>
   pass_events stuck_world (sync False ''src'' ''dst'' demo_logger stuck_world) =
     [Log (start_message ''src'' ''dst''), Listdir ''src'', Listdir ''dst'',
      Log (copy_message ''sub'' ''src'' ''dst''), Copy ''src'' ''sub'' ''dst''] \<and>
   log_text demo_logger (world_of (sync False ''src'' ''dst'' demo_logger stuck_world)) =
     ''2024-01-01 00:00:00: Syncing files from src to dst'' @ [CHR 0x0A] @
     ''2024-01-01 00:00:00: Copying sub from src to dst'' @ [CHR 0x0A]"
proof -
  have e: "error_of (sync False ''src'' ''dst'' demo_logger stuck_world) =
     Some (IsADirectoryError ''src'' ''sub'') \<and>
   pass_events stuck_world (sync False ''src'' ''dst'' demo_logger stuck_world) =
     [Log (start_message ''src'' ''dst''), Listdir ''src'', Listdir ''dst'',
      Log (copy_message ''sub'' ''src'' ''dst''), Copy ''src'' ''sub'' ''dst'']"
    by (simp add: eval_defs stuck_world_def demo_logger_def)
  have t: "log_text demo_logger stuck_world = []" "tick stuck_world = 0"
    "fst (log_file_path demo_logger) \<noteq> ''dst''"
    by (simp_all add: log_text_def contents_def lookup_def stuck_world_def demo_logger_def)
  note T = log_before_action[of demo_logger stuck_world False "''src''" "''dst''"]
  from T have f: "log_first demo_logger None
     (pass_events stuck_world (sync False ''src'' ''dst'' demo_logger stuck_world))" by blast
  from T t(3) have
    "log_text demo_logger (world_of (sync False ''src'' ''dst'' demo_logger stuck_world)) =
       log_text demo_logger stuck_world @ log_lines stuck_world (tick stuck_world)
         (pass_events stuck_world (sync False ''src'' ''dst'' demo_logger stuck_world))"
    by blast
  then have
    "log_text demo_logger (world_of (sync False ''src'' ''dst'' demo_logger stuck_world)) =
     log_lines stuck_world 0
       [Log (start_message ''src'' ''dst''), Listdir ''src'', Listdir ''dst'',
        Log (copy_message ''sub'' ''src'' ''dst''), Copy ''src'' ''sub'' ''dst'']"
    by (simp add: e t)
  also have "\<dots> =
     ''2024-01-01 00:00:00: Syncing files from src to dst'' @ [CHR 0x0A] @
     ''2024-01-01 00:00:00: Copying sub from src to dst'' @ [CHR 0x0A]"
    by (simp add: stamped_def start_message_def copy_message_def stuck_world_def)
  finally have
    "log_text demo_logger (world_of (sync False ''src'' ''dst'' demo_logger stuck_world)) =
     ''2024-01-01 00:00:00: Syncing files from src to dst'' @ [CHR 0x0A] @
     ''2024-01-01 00:00:00: Copying sub from src to dst'' @ [CHR 0x0A]" .
  with f e show ?thesis by simp
qed

end
